theory Spec2Isabelle
  imports Main "HOL-Library.Word" "HOL-Library.AList"
begin

section \<open>Bytes, errors\<close>

text \<open>
  A Go byte slice is a list of 8-bit words; a slice that may be \<open>nil\<close> is an
  option (\<open>None\<close> is \<open>nil\<close>, \<open>Some []\<close> the empty non-nil slice).
  A \<open>maybe.Maybe[[]byte]\<close> is an option as well (\<open>None\<close> is \<open>Nothing\<close>).
\<close>

type_synonym byte = "8 word"
type_synonym bytes = "byte list"

text \<open>Reading a possibly-nil slice: \<open>nil\<close> has no elements.\<close>

definition slice_or_nil :: "bytes option \<Rightarrow> bytes" where
  "slice_or_nil b = (case b of None \<Rightarrow> [] | Some xs \<Rightarrow> xs)"

text \<open>\<open>bytes.Compare\<close>: lexicographic on unsigned bytes, result -1, 0 or 1.\<close>

fun bytes_Compare :: "bytes \<Rightarrow> bytes \<Rightarrow> int" where
  "bytes_Compare [] [] = 0"
| "bytes_Compare [] (y # ys) = - 1"
| "bytes_Compare (x # xs) [] = 1"
| "bytes_Compare (x # xs) (y # ys) =
     (if x < y then - 1 else if y < x then 1 else bytes_Compare xs ys)"

text \<open>
  The error values of the packages \<open>database\<close>, \<open>merkledb\<close> and \<open>pebble\<close>.
  \<open>ErrInvalidMaxLength\<close> is returned wrapped together with the offending length;
  \<open>ErrPebble\<close> stands for an error of the storage engine that \<open>updateError\<close>
  passes through unchanged, \<open>Panic\<close> for a run-time panic (an index out of range).
\<close>

datatype error =
    ErrClosed
  | ErrNotFound
  | ErrCommitted
  | ErrInvalid
  | ErrPartialByteLengthWithValue
  | ErrGetPathToFailure
  | ErrStartAfterEnd
  | ErrNoValidRoot
  | ErrParentNotDatabase
  | ErrNodesAlreadyCalculated
  | ErrInvalidMaxLength int
  | ErrPebble nat
  | Panic

section \<open>Keys\<close>

text \<open>
  Modelled from the spec: the \<open>Key\<close> type and its operations (the file that
  declares them is not among the sources). A key is its sequence of tokens; the
  field \<open>length\<close> counts bits, so a key of \<open>n\<close> tokens has length
  \<open>tokenSize * n\<close>, and every index and length the view code passes is a bit
  count. \<open>Take\<close> and \<open>Skip\<close> are total; \<open>Token\<close> at an index that is not below
  the length is a programming error (a panic), the value \<open>None\<close> here.
\<close>

type_synonym token = byte
type_synonym Key = "token list"

definition emptyKey :: Key where
  "emptyKey = []"

definition key_length :: "nat \<Rightarrow> Key \<Rightarrow> nat" where
  "key_length ts k = ts * length k"

definition Token :: "nat \<Rightarrow> Key \<Rightarrow> nat \<Rightarrow> token option" where
  "Token ts k bitIndex =
     (if bitIndex < key_length ts k then Some (k ! (bitIndex div ts)) else None)"

definition Take :: "nat \<Rightarrow> Key \<Rightarrow> nat \<Rightarrow> Key" where
  "Take ts k bitsToTake = take (bitsToTake div ts) k"

definition Skip :: "nat \<Rightarrow> Key \<Rightarrow> nat \<Rightarrow> Key" where
  "Skip ts k bitsToSkip = drop (bitsToSkip div ts) k"

definition ToToken :: "token \<Rightarrow> Key" where
  "ToToken index = [index]"

definition Extend :: "Key \<Rightarrow> Key list \<Rightarrow> Key" where
  "Extend k ks = k @ concat ks"

definition iteratedHasPrefix :: "nat \<Rightarrow> Key \<Rightarrow> Key \<Rightarrow> nat \<Rightarrow> bool" where
  "iteratedHasPrefix ts k prefix bitsOffset =
     (if key_length ts k < bitsOffset + key_length ts prefix then False
      else take (length prefix) (drop (bitsOffset div ts) k) = prefix)"

text \<open>\<open>ToKey\<close>: the tokens of a byte string, most significant bits first.\<close>

definition byte_tokens :: "nat \<Rightarrow> byte \<Rightarrow> token list" where
  "byte_tokens ts b = map (\<lambda>i. take_bit ts (drop_bit (8 - ts * (i + 1)) b)) [0..<8 div ts]"

definition ToKey :: "nat \<Rightarrow> bytes \<Rightarrow> Key" where
  "ToKey ts bs = concat (map (byte_tokens ts) bs)"

function getLengthOfCommonPrefix_loop :: "nat \<Rightarrow> Key \<Rightarrow> Key \<Rightarrow> nat \<Rightarrow> nat \<Rightarrow> nat" where
  "getLengthOfCommonPrefix_loop ts first second secondOffset commonIndex =
     (if key_length ts first > commonIndex
         \<and> key_length ts second > commonIndex + secondOffset
         \<and> Token ts first commonIndex = Token ts second (commonIndex + secondOffset)
      then getLengthOfCommonPrefix_loop ts first second secondOffset (commonIndex + ts)
      else commonIndex)"
  by pat_completeness auto
termination
  by (relation "measure (\<lambda>(ts, first, second, off, ci). key_length ts first - ci)")
     (auto simp: key_length_def intro!: diff_less_mono2 gr0I)

definition getLengthOfCommonPrefix :: "Key \<Rightarrow> Key \<Rightarrow> nat \<Rightarrow> nat \<Rightarrow> nat" where
  "getLengthOfCommonPrefix first second secondOffset ts =
     getLengthOfCommonPrefix_loop ts first second secondOffset 0"

section \<open>Nodes, changes and views\<close>

text \<open>
  Modelled from the spec: \<open>calculateID\<close> and the identifier type (neither is among
  the sources). A node's identifier is the hash of its key, its value and its child
  table in ascending token order; the hash is taken to be free of collisions, so an
  identifier is the term it was computed from, and \<open>Empty\<close> is \<open>ids.Empty\<close>.
\<close>

datatype ID = Empty | NodeID Key "(token \<times> Key \<times> ID) list" "bytes option"

record child =
  compressedKey :: Key
  child_id :: ID

text \<open>
  \<open>nodeChildren\<close> is a Go map from token to child: an association list with
  distinct tokens, in some iteration order. A variable of the type may be \<open>nil\<close>,
  which reads as the empty map and is \<open>None\<close> here.
\<close>

type_synonym nodeChildren = "(token \<times> child) list"

definition children_lookup :: "nodeChildren option \<Rightarrow> token \<Rightarrow> child option" where
  "children_lookup m tok = (case m of None \<Rightarrow> None | Some cs \<Rightarrow> map_of cs tok)"

definition children_len :: "nodeChildren option \<Rightarrow> nat" where
  "children_len m = (case m of None \<Rightarrow> 0 | Some cs \<Rightarrow> length cs)"

definition calculateID :: "Key \<Rightarrow> nodeChildren option \<Rightarrow> bytes option \<Rightarrow> ID" where
  "calculateID key children val =
     NodeID key
       (sort_key fst (map (\<lambda>(tok, c). (tok, compressedKey c, child_id c))
          (case children of None \<Rightarrow> [] | Some cs \<Rightarrow> cs)))
       val"

record change =
  before :: "bytes option"
  after :: "bytes option"

record changeSummary =
  rootID :: ID
  values_map :: "Key \<rightharpoonup> change"

text \<open>
  The parent of a view is a value of the interface \<open>TrieView\<close>: another view or the
  database. A view reads its parent through two methods. A call returns its result
  and whether this view was invalidated (by a commit of an ancestor, on another
  thread) while the call ran.
\<close>

record TrieView =
  tv_getValue :: "Key \<Rightarrow> (error + bytes option) \<times> bool"
  tv_getChildren :: "Key \<Rightarrow> (error + nodeChildren option) \<times> bool"

type_synonym view_ref = nat

record trieView =
  committed :: bool
  nodesAlreadyCalculated :: bool
  calculateNodesOnce :: bool
  invalidated :: bool
  parentTrie :: TrieView
  childViews :: "view_ref list"
  changes :: changeSummary
  childrenChanges :: "Key \<rightharpoonup> nodeChildren option"
  tokenSize :: nat

definition isInvalid :: "trieView \<Rightarrow> bool" where
  "isInvalid t = invalidated t"

definition getParentTrie :: "trieView \<Rightarrow> TrieView" where
  "getParentTrie t = parentTrie t"

text \<open>What a call into the parent leaves behind in this view.\<close>

definition afterParentCall :: "bool \<Rightarrow> trieView \<Rightarrow> trieView" where
  "afterParentCall b t = t\<lparr>invalidated := invalidated t \<or> b\<rparr>"

section \<open>Reading a view\<close>

definition getValue :: "trieView \<Rightarrow> Key \<Rightarrow> (error + bytes option) \<times> trieView" where
  "getValue t key =
     (if isInvalid t then (Inl ErrInvalid, t)
      else case values_map (changes t) key of
        Some change \<Rightarrow> (Inr (after change), t)
      | None \<Rightarrow>
          (let (r, b) = tv_getValue (getParentTrie t) key;
               t' = afterParentCall b t
           in case r of
                Inl err \<Rightarrow> (Inl err, t')
              | Inr v \<Rightarrow> if isInvalid t' then (Inl ErrInvalid, t') else (Inr v, t')))"

text \<open>
  \<open>getChildrenInternal\<close> returns either the very map object that the view holds for
  the key, or a clone of the parent's. The flag in the result tells the two apart:
  it is \<open>True\<close> when the caller's variable aliases the stored map, so that later
  writes through \<open>childrenChanges\<close> show in it.
\<close>

definition getChildrenInternal ::
  "trieView \<Rightarrow> Key \<Rightarrow> (error + nodeChildren option \<times> bool) \<times> trieView" where
  "getChildrenInternal t key =
     (case childrenChanges t key of
        Some stored \<Rightarrow>
          (case stored of
             None \<Rightarrow> (Inl ErrNotFound, t)
           | Some m \<Rightarrow> (Inr (Some m, True), t))
      | None \<Rightarrow>
          (let (r, b) = tv_getChildren (getParentTrie t) key;
               t' = afterParentCall b t
           in case r of
                Inl err \<Rightarrow> (Inl err, t')
              | Inr parentTrieNode \<Rightarrow> (Inr (parentTrieNode, False), t')))"

definition getChildren ::
  "trieView \<Rightarrow> Key \<Rightarrow> (error + nodeChildren option \<times> bool) \<times> trieView" where
  "getChildren t key =
     (if isInvalid t then (Inl ErrInvalid, t)
      else case getChildrenInternal t key of
        (Inl err, t') \<Rightarrow> (Inl err, t')
      | (Inr n, t') \<Rightarrow> if isInvalid t' then (Inl ErrInvalid, t') else (Inr n, t'))"

section \<open>Recording node changes\<close>

definition recordNewNode :: "trieView \<Rightarrow> Key \<Rightarrow> nodeChildren option \<times> trieView" where
  "recordNewNode t key = (Some [], t\<lparr>childrenChanges := (childrenChanges t)(key \<mapsto> Some [])\<rparr>)"

definition recordNodeDeleted :: "trieView \<Rightarrow> Key \<Rightarrow> trieView" where
  "recordNodeDeleted t key = t\<lparr>childrenChanges := (childrenChanges t)(key \<mapsto> None)\<rparr>"

definition recordChildEntry :: "trieView \<Rightarrow> Key \<Rightarrow> token \<Rightarrow> child \<Rightarrow> trieView" where
  "recordChildEntry t key childIndex entry =
     (let childMap = (case childrenChanges t key of Some (Some existing) \<Rightarrow> existing | _ \<Rightarrow> [])
      in t\<lparr>childrenChanges :=
             (childrenChanges t)(key \<mapsto> Some (AList.update childIndex entry childMap))\<rparr>)"

definition recordChildRemoved :: "trieView \<Rightarrow> Key \<Rightarrow> Key \<Rightarrow> error + trieView" where
  "recordChildRemoved t key childKey =
     (case childrenChanges t key of
        None \<Rightarrow> Inr t
      | Some existing \<Rightarrow>
          (case Token (tokenSize t) childKey (key_length (tokenSize t) key) of
             None \<Rightarrow> Inl Panic
           | Some tok \<Rightarrow>
               (case existing of
                  None \<Rightarrow> Inr t
                | Some m \<Rightarrow>
                    Inr (t\<lparr>childrenChanges :=
                              (childrenChanges t)(key \<mapsto> Some (AList.delete tok m))\<rparr>))))"

definition recordPendingChildChange :: "trieView \<Rightarrow> Key \<Rightarrow> Key \<Rightarrow> error + trieView" where
  "recordPendingChildChange t key childKey =
     (case Token (tokenSize t) childKey (key_length (tokenSize t) key) of
        None \<Rightarrow> Inl Panic
      | Some tok \<Rightarrow>
          Inr (recordChildEntry t key tok
                 \<lparr>compressedKey = Skip (tokenSize t) childKey (key_length (tokenSize t) key + tokenSize t),
                  child_id = Empty\<rparr>))"

definition recordChildChange :: "trieView \<Rightarrow> Key \<Rightarrow> Key \<Rightarrow> ID \<Rightarrow> error + trieView" where
  "recordChildChange t key childKey i =
     (case Token (tokenSize t) childKey (key_length (tokenSize t) key) of
        None \<Rightarrow> Inl Panic
      | Some tok \<Rightarrow>
          Inr (recordChildEntry t key tok
                 \<lparr>compressedKey = Skip (tokenSize t) childKey (key_length (tokenSize t) key + tokenSize t),
                  child_id = i\<rparr>))"

definition recordValueChange :: "trieView \<Rightarrow> Key \<Rightarrow> bytes option \<Rightarrow> error option \<times> trieView" where
  "recordValueChange t key val =
     (if nodesAlreadyCalculated t then (Some ErrNodesAlreadyCalculated, t)
      else case values_map (changes t) key of
        Some existing \<Rightarrow>
          (None, t\<lparr>changes := (changes t)
                     \<lparr>values_map := (values_map (changes t))(key \<mapsto> existing\<lparr>after := val\<rparr>)\<rparr>\<rparr>)
      | None \<Rightarrow>
          (let (r, b) = tv_getValue (getParentTrie t) key;
               t' = afterParentCall b t
           in case r of
                Inl err \<Rightarrow> (Some err, t')
              | Inr bef \<Rightarrow>
                  (None, t'\<lparr>changes := (changes t')
                     \<lparr>values_map := (values_map (changes t'))(key \<mapsto> \<lparr>before = bef, after = val\<rparr>)\<rparr>\<rparr>)))"

section \<open>Walking the path to a key\<close>

text \<open>
  The callback of \<open>visitPathToKey\<close> is a Go closure: the variables it captures are
  the accumulator, and the view it writes to is passed through. It receives the
  node's key, its children and whether they alias the view's stored map.
\<close>

type_synonym 'a visitor =
  "Key \<Rightarrow> nodeChildren option \<Rightarrow> bool \<Rightarrow> 'a \<Rightarrow> trieView \<Rightarrow> error option \<times> 'a \<times> trieView"

function visitPathToKey_loop ::
  "'a visitor \<Rightarrow> Key \<Rightarrow> Key \<Rightarrow> nodeChildren option \<Rightarrow> 'a \<Rightarrow> trieView
     \<Rightarrow> error option \<times> 'a \<times> trieView" where
  "visitPathToKey_loop visitNode key currentKey currentChildren acc t =
     (if key_length (tokenSize t) currentKey < key_length (tokenSize t) key then
        (case Token (tokenSize t) key (key_length (tokenSize t) currentKey) of
           None \<Rightarrow> (Some Panic, acc, t)
         | Some tok \<Rightarrow>
             (case children_lookup currentChildren tok of
                None \<Rightarrow> (None, acc, t)
              | Some nextChildEntry \<Rightarrow>
                  if \<not> iteratedHasPrefix (tokenSize t) key (compressedKey nextChildEntry)
                         (key_length (tokenSize t) currentKey + tokenSize t)
                  then (None, acc, t)
                  else
                    (case getChildrenInternal t
                            (Take (tokenSize t) key
                               (key_length (tokenSize t) currentKey + tokenSize t
                                  + key_length (tokenSize t) (compressedKey nextChildEntry))) of
                       (Inl err, t') \<Rightarrow> (Some err, acc, t')
                     | (Inr (children', stored), t') \<Rightarrow>
                         (case visitNode
                                 (Take (tokenSize t) key
                                    (key_length (tokenSize t) currentKey + tokenSize t
                                       + key_length (tokenSize t) (compressedKey nextChildEntry)))
                                 children' stored acc t' of
                            (Some err, acc', t'') \<Rightarrow> (Some err, acc', t'')
                          | (None, acc', t'') \<Rightarrow>
                              visitPathToKey_loop visitNode key
                                (Take (tokenSize t) key
                                   (key_length (tokenSize t) currentKey + tokenSize t
                                      + key_length (tokenSize t) (compressedKey nextChildEntry)))
                                children' acc' t''))))
      else (None, acc, t))"
  by pat_completeness auto
termination
proof (relation "measure (\<lambda>(visitNode, key, currentKey, currentChildren, acc, t).
                            length key - length currentKey)")
  show "wf (measure (\<lambda>(visitNode, key, currentKey, currentChildren, acc, t).
                            length key - length currentKey))"
    by simp
next
  fix key currentKey :: Key and t :: trieView and nextChildEntry :: child
  assume lt: "key_length (tokenSize t) currentKey < key_length (tokenSize t) key"
  let ?ts = "tokenSize t"
  let ?n = "key_length ?ts currentKey + ?ts + key_length ?ts (compressedKey nextChildEntry)"
  from lt have ts: "0 < ?ts" and len: "length currentKey < length key"
    by (auto simp: key_length_def intro: gr0I)
  have eq: "?n = (length currentKey + 1 + length (compressedKey nextChildEntry)) * ?ts"
    by (simp add: key_length_def algebra_simps)
  have "?n div ?ts = length currentKey + 1 + length (compressedKey nextChildEntry)"
    unfolding eq using ts by (rule nonzero_mult_div_cancel_right [OF less_imp_neq [THEN not_sym]])
  with len have "length currentKey < length (Take ?ts key ?n)"
    by (simp add: Take_def)
  with len show "\<And>visitNode currentChildren acc x2 x xa y xb ya xc yb xd yc.
       ((visitNode, key, Take ?ts key ?n, xb, xd, yc),
        (visitNode, key, currentKey, currentChildren, acc, t))
       \<in> measure (\<lambda>(visitNode, key, currentKey, currentChildren, acc, t).
                     length key - length currentKey)"
    by simp
qed

definition visitPathToKey ::
  "trieView \<Rightarrow> Key \<Rightarrow> 'a visitor \<Rightarrow> 'a \<Rightarrow> error option \<times> 'a \<times> trieView" where
  "visitPathToKey t key visitNode acc =
     (let (currentChildren, stored) =
            (case childrenChanges t emptyKey of
               Some (Some m) \<Rightarrow> (Some m, True)
             | _ \<Rightarrow> (None, False))
      in case visitNode emptyKey currentChildren stored acc t of
           (Some err, acc', t') \<Rightarrow> (Some err, acc', t')
         | (None, acc', t') \<Rightarrow>
             visitPathToKey_loop visitNode key emptyKey currentChildren acc' t')"

section \<open>Insertion and removal\<close>

text \<open>
  The closure in \<open>insert\<close> captures \<open>closestChildren\<close>, \<open>closestKey\<close> and
  \<open>previousKey\<close> (a pointer, \<open>nil\<close> before the first node).
\<close>

definition insert_visitNode :: "(nodeChildren option \<times> Key \<times> Key option) visitor" where
  "insert_visitNode localKey children stored acc t =
     (case acc of (closestChildren, closestKey, previousKey) \<Rightarrow>
        (case (case previousKey of
                 None \<Rightarrow> Inr t
               | Some pk \<Rightarrow> recordPendingChildChange t pk localKey) of
           Inl err \<Rightarrow> (Some err, acc, t)
         | Inr t' \<Rightarrow> (None, (children, localKey, Some localKey), t')))"

definition insert_view :: "trieView \<Rightarrow> Key \<Rightarrow> (error + nodeChildren option) \<times> trieView" where
  "insert_view t key =
     (if nodesAlreadyCalculated t then (Inl ErrNodesAlreadyCalculated, t)
      else case visitPathToKey t key insert_visitNode (None, emptyKey, None) of
        (Some err, _, t') \<Rightarrow> (Inl err, t')
      | (None, (closestChildren, closestKey, _), t') \<Rightarrow>
          if closestKey = key then (Inr closestChildren, t')
          else
            (case Token (tokenSize t') key (key_length (tokenSize t') closestKey) of
               None \<Rightarrow> (Inl Panic, t')
             | Some tok \<Rightarrow>
                 (case children_lookup closestChildren tok of
                    None \<Rightarrow>
                      (case recordChildChange t' closestKey key Empty of
                         Inl err \<Rightarrow> (Inl err, t')
                       | Inr t1 \<Rightarrow> (let (r, t2) = recordNewNode t1 key in (Inr r, t2)))
                  | Some existingChildEntry \<Rightarrow>
                      (let commonPrefixLength =
                             getLengthOfCommonPrefix (compressedKey existingChildEntry) key
                               (key_length (tokenSize t') closestKey + tokenSize t') (tokenSize t')
                       in if key_length (tokenSize t') (compressedKey existingChildEntry)
                               \<le> commonPrefixLength
                          then (Inl ErrGetPathToFailure, t')
                          else
                            (let branchKey =
                                   Take (tokenSize t') key
                                     (key_length (tokenSize t') closestKey + tokenSize t'
                                        + commonPrefixLength)
                             in case recordChildChange t' closestKey branchKey Empty of
                                  Inl err \<Rightarrow> (Inl err, t')
                                | Inr t1 \<Rightarrow>
                                    (case (if key_length (tokenSize t') key
                                                \<noteq> key_length (tokenSize t') branchKey
                                           then recordChildChange t1 branchKey key Empty
                                           else Inr t1) of
                                       Inl err \<Rightarrow> (Inl err, t1)
                                     | Inr t2 \<Rightarrow>
                                         (case Token (tokenSize t') (compressedKey existingChildEntry)
                                                 commonPrefixLength of
                                            None \<Rightarrow> (Inl Panic, t2)
                                          | Some tok' \<Rightarrow>
                                              (let t3 = recordChildEntry t2 branchKey tok'
                                                     \<lparr>compressedKey =
                                                        Skip (tokenSize t') (compressedKey existingChildEntry)
                                                          (commonPrefixLength + tokenSize t'),
                                                      child_id = child_id existingChildEntry\<rparr>;
                                                   (r, t4) = recordNewNode t3 key
                                               in (Inr r, t4)))))))))"

definition compressNodePath ::
  "trieView \<Rightarrow> nodeChildren option \<Rightarrow> Key \<Rightarrow> nodeChildren option \<Rightarrow> Key
     \<Rightarrow> error option \<times> trieView" where
  "compressNodePath t parent parentKey node nodeKey =
     (if nodesAlreadyCalculated t then (Some ErrNodesAlreadyCalculated, t)
      else if parent = None \<or> children_len node \<noteq> 1 then (None, t)
      else case getValue t nodeKey of
        (Inl err, t1) \<Rightarrow> (Some err, t1)
      | (Inr val, t1) \<Rightarrow>
          if val \<noteq> None then (None, t1)
          else
            (let t2 = recordNodeDeleted t1 nodeKey
             in case node of
                  Some [(index, entry)] \<Rightarrow>
                    (case recordChildChange t2 parentKey
                            (Extend nodeKey [ToToken index, compressedKey entry])
                            (child_id entry) of
                       Inl err \<Rightarrow> (Some err, t2)
                     | Inr t3 \<Rightarrow> (None, t3))
                | _ \<Rightarrow> (Some Panic, t2)))"

text \<open>
  The closure in \<open>remove\<close> captures three keys and three maps. A captured map that
  aliases the view's stored map sees the later writes to that entry; a clone of the
  parent's map does not. Only \<open>parent\<close> is read after such a write, so the record
  keeps, next to the maps as they were when captured, whether \<open>parent\<close> and
  \<open>nodeToDelete\<close> alias the stored maps.
\<close>

record remove_vars =
  grandParentKey :: Key
  parentKey :: Key
  nodeToDeleteKey :: Key
  grandParent :: "nodeChildren option"
  parent :: "nodeChildren option"
  nodeToDelete :: "nodeChildren option"
  parentStored :: bool
  nodeToDeleteStored :: bool

definition remove_vars_init :: remove_vars where
  "remove_vars_init =
     \<lparr>grandParentKey = emptyKey, parentKey = emptyKey, nodeToDeleteKey = emptyKey,
      grandParent = None, parent = None, nodeToDelete = None,
      parentStored = False, nodeToDeleteStored = False\<rparr>"

definition remove_visitNode :: "remove_vars visitor" where
  "remove_visitNode key children stored v t =
     (let v' = \<lparr>grandParentKey = parentKey v, parentKey = nodeToDeleteKey v,
                nodeToDeleteKey = key,
                grandParent = parent v, parent = nodeToDelete v, nodeToDelete = children,
                parentStored = nodeToDeleteStored v, nodeToDeleteStored = stored\<rparr>
      in if parent v' \<noteq> None then
           (case recordPendingChildChange t (parentKey v') (nodeToDeleteKey v') of
              Inl err \<Rightarrow> (Some err, v', t)
            | Inr t' \<Rightarrow> (None, v', t'))
         else (None, v', t))"

text \<open>The map a variable refers to now: the stored one if it aliases it.\<close>

definition deref :: "trieView \<Rightarrow> Key \<Rightarrow> bool \<Rightarrow> nodeChildren option \<Rightarrow> nodeChildren option" where
  "deref t key stored captured =
     (if stored then (case childrenChanges t key of Some m \<Rightarrow> m | None \<Rightarrow> None)
      else captured)"

definition remove_view :: "trieView \<Rightarrow> Key \<Rightarrow> error option \<times> trieView" where
  "remove_view t key =
     (if nodesAlreadyCalculated t then (Some ErrNodesAlreadyCalculated, t)
      else case getChildren t key of
        (Inl err, t1) \<Rightarrow> if err = ErrNotFound then (None, t1) else (Some err, t1)
      | (Inr (keyNode, _), t1) \<Rightarrow>
          if keyNode = None then (None, t1)
          else
            (case visitPathToKey t1 key remove_visitNode remove_vars_init of
               (Some err, _, t2) \<Rightarrow> (Some err, t2)
             | (None, v, t2) \<Rightarrow>
                 if children_len (nodeToDelete v) \<noteq> 0 then
                   compressNodePath t2 (parent v) (parentKey v) (nodeToDelete v) (nodeToDeleteKey v)
                 else
                   (let t3 = recordNodeDeleted t2 (nodeToDeleteKey v)
                    in if parent v \<noteq> None then
                         (case recordChildRemoved t3 (parentKey v) (nodeToDeleteKey v) of
                            Inl err \<Rightarrow> (Some err, t3)
                          | Inr t4 \<Rightarrow>
                              compressNodePath t4 (grandParent v) (grandParentKey v)
                                (deref t4 (parentKey v) (parentStored v) (parent v))
                                (parentKey v))
                       else (None, t3))))"

section \<open>Calculating node identifiers\<close>

text \<open>
  \<open>calculateNodeIDsHelper\<close> descends along child entries whose identifier is
  \<open>Empty\<close>; nothing in the view bounds the descent, so the function takes fuel and
  \<open>None\<close> says that it ran out. The children of a node are handled one after the
  other, in the iteration order of the map. The identifier of a child is
  written into the entry itself, which the stored map shares.
\<close>

definition storeChildID :: "trieView \<Rightarrow> Key \<Rightarrow> bool \<Rightarrow> token \<Rightarrow> child \<Rightarrow> trieView" where
  "storeChildID t key stored childIndex entry =
     (if stored then
        (case childrenChanges t key of
           Some (Some m) \<Rightarrow>
             t\<lparr>childrenChanges := (childrenChanges t)(key \<mapsto> Some (AList.update childIndex entry m))\<rparr>
         | _ \<Rightarrow> t)
      else t)"

fun calculateNodeIDsHelper ::
      "nat \<Rightarrow> trieView \<Rightarrow> Key \<Rightarrow> bytes option \<Rightarrow> ((error + ID) \<times> trieView) option"
  and calculateChildIDs ::
      "nat \<Rightarrow> trieView \<Rightarrow> Key \<Rightarrow> bool \<Rightarrow> nodeChildren \<Rightarrow> nodeChildren
         \<Rightarrow> ((error + nodeChildren) \<times> trieView) option" where
  "calculateNodeIDsHelper 0 t key val = None"
| "calculateNodeIDsHelper (Suc n) t key val =
     (case getChildren t key of
        (Inl err, t1) \<Rightarrow> Some (Inl err, t1)
      | (Inr (children, stored), t1) \<Rightarrow>
          (case calculateChildIDs n t1 key stored
                  (case children of None \<Rightarrow> [] | Some cs \<Rightarrow> cs) [] of
             None \<Rightarrow> None
           | Some (Inl err, t2) \<Rightarrow> Some (Inl err, t2)
           | Some (Inr cs', t2) \<Rightarrow>
               Some (Inr (calculateID key (case children of None \<Rightarrow> None | Some _ \<Rightarrow> Some cs') val),
                     t2)))"
| "calculateChildIDs n t key stored [] done = Some (Inr done, t)"
| "calculateChildIDs n t key stored ((childIndex, entry) # rest) done =
     (if (childrenChanges t (Extend key [ToToken childIndex, compressedKey entry]) = None
            \<and> values_map (changes t) (Extend key [ToToken childIndex, compressedKey entry]) = None)
         \<or> child_id entry \<noteq> Empty
      then calculateChildIDs n t key stored rest (done @ [(childIndex, entry)])
      else
        (case calculateNodeIDsHelper n t (Extend key [ToToken childIndex, compressedKey entry])
                (case values_map (changes t) (Extend key [ToToken childIndex, compressedKey entry]) of
                   None \<Rightarrow> None
                 | Some valueChange \<Rightarrow> after valueChange) of
           None \<Rightarrow> None
         | Some (Inl err, t1) \<Rightarrow> Some (Inl err, t1)
         | Some (Inr newID, t1) \<Rightarrow>
             calculateChildIDs n
               (storeChildID t1 key stored childIndex (entry\<lparr>child_id := newID\<rparr>))
               key stored rest (done @ [(childIndex, entry\<lparr>child_id := newID\<rparr>)])))"

text \<open>
  The loop of \<open>calculateNodeIDs\<close> over \<open>t.changes.values\<close>. A Go map is iterated in
  an order the language leaves open: \<open>order\<close> lists the keys in the order of this
  run.
\<close>

fun applyValueChanges :: "trieView \<Rightarrow> Key list \<Rightarrow> error option \<times> trieView" where
  "applyValueChanges t [] = (None, t)"
| "applyValueChanges t (key # rest) =
     (case values_map (changes t) key of
        None \<Rightarrow> applyValueChanges t rest
      | Some change \<Rightarrow>
          if after change = None then
            (case remove_view t key of
               (Some err, t') \<Rightarrow> (Some err, t')
             | (None, t') \<Rightarrow> applyValueChanges t' rest)
          else
            (case insert_view t key of
               (Inl err, t') \<Rightarrow> (Some err, t')
             | (Inr _, t') \<Rightarrow> applyValueChanges t' rest))"

text \<open>
  The function passed to \<open>calculateNodesOnce.Do\<close>. The deferred
  \<open>nodesAlreadyCalculated.Set(true)\<close> runs on every return after the first check.
  Between the return of \<open>calculateNodeIDsHelper\<close> and the last check of the flag the
  semaphore is released and other threads run: \<open>late\<close> says whether a commit of an
  ancestor invalidated the view in that time.
\<close>

definition calculateNodeIDs_body ::
  "nat \<Rightarrow> Key list \<Rightarrow> bool \<Rightarrow> trieView \<Rightarrow> (error option \<times> trieView) option" where
  "calculateNodeIDs_body fuel order late t =
     (if isInvalid t then Some (Some ErrInvalid, t)
      else case applyValueChanges t order of
        (Some err, t1) \<Rightarrow> Some (Some err, t1\<lparr>nodesAlreadyCalculated := True\<rparr>)
      | (None, t1) \<Rightarrow>
          (case getValue t1 emptyKey of
             (Inl err, t2) \<Rightarrow> Some (Some err, t2\<lparr>nodesAlreadyCalculated := True\<rparr>)
           | (Inr val, t2) \<Rightarrow>
               (case calculateNodeIDsHelper fuel t2 emptyKey val of
                  None \<Rightarrow> None
                | Some (Inl err, t3) \<Rightarrow>
                    Some (Some err,
                          t3\<lparr>changes := (changes t3)\<lparr>rootID := Empty\<rparr>,
                             nodesAlreadyCalculated := True\<rparr>)
                | Some (Inr root, t3) \<Rightarrow>
                    (let t4 = t3\<lparr>changes := (changes t3)\<lparr>rootID := root\<rparr>,
                                invalidated := invalidated t3 \<or> late\<rparr>
                     in if isInvalid t4
                        then Some (Some ErrInvalid, t4\<lparr>nodesAlreadyCalculated := True\<rparr>)
                        else Some (None, t4\<lparr>nodesAlreadyCalculated := True\<rparr>)))))"

text \<open>
  \<open>sync.Once\<close>: the function runs on the first call only, whatever it returns; a
  later call returns the zero value of \<open>err\<close>.
\<close>

definition calculateNodeIDs ::
  "nat \<Rightarrow> Key list \<Rightarrow> bool \<Rightarrow> trieView \<Rightarrow> (error option \<times> trieView) option" where
  "calculateNodeIDs fuel order late t =
     (if calculateNodesOnce t then Some (None, t)
      else case calculateNodeIDs_body fuel order late t of
        None \<Rightarrow> None
      | Some (err, t') \<Rightarrow> Some (err, t'\<lparr>calculateNodesOnce := True\<rparr>))"

definition GetMerkleRoot ::
  "nat \<Rightarrow> Key list \<Rightarrow> bool \<Rightarrow> trieView \<Rightarrow> ((error + ID) \<times> trieView) option" where
  "GetMerkleRoot fuel order late t =
     (case calculateNodeIDs fuel order late t of
        None \<Rightarrow> None
      | Some (Some err, t') \<Rightarrow> Some (Inl err, t')
      | Some (None, t') \<Rightarrow> Some (Inr (rootID (changes t')), t'))"

section \<open>Proofs\<close>

text \<open>
  Modelled from the spec: \<open>ProofNode\<close> and \<open>asProofNode\<close> (not among the sources).
  A proof node carries the node's key, its value (or the digest of a long value,
  which the collision-free reading identifies with the value) and the identifiers
  of its children by token.
\<close>

record ProofNode =
  pn_Key :: Key
  pn_ValueOrHash :: "bytes option"
  pn_Children :: "(token \<times> ID) list"

definition asProofNode :: "Key \<Rightarrow> nodeChildren option \<Rightarrow> bytes option \<Rightarrow> ProofNode" where
  "asProofNode key children val =
     \<lparr>pn_Key = key, pn_ValueOrHash = val,
      pn_Children = sort_key fst (map (\<lambda>(tok, c). (tok, child_id c))
                      (case children of None \<Rightarrow> [] | Some cs \<Rightarrow> cs))\<rparr>"

record Proof =
  proof_Path :: "ProofNode list"
  proof_Key :: Key
  proof_Value :: "bytes option"

text \<open>
  The closure in \<open>getProof\<close> captures \<open>closestKey\<close>, \<open>closestChildren\<close>,
  \<open>closestValue\<close> and the path of the proof.
\<close>

definition getProof_visitNode ::
  "(Key \<times> nodeChildren option \<times> bytes option \<times> ProofNode list) visitor" where
  "getProof_visitNode key children stored acc t =
     (case acc of (closestKey, closestChildren, closestValue, path) \<Rightarrow>
        (case getValue t key of
           (Inl err, t') \<Rightarrow> (Some err, (key, children, None, path), t')
         | (Inr v, t') \<Rightarrow> (None, (key, children, v, path @ [asProofNode key children v]), t')))"

definition getProof :: "trieView \<Rightarrow> bytes \<Rightarrow> (error + Proof) \<times> trieView" where
  "getProof t key =
     (case visitPathToKey t (ToKey (tokenSize t) key) getProof_visitNode (emptyKey, None, None, []) of
        (Some err, _, t') \<Rightarrow> (Inl err, t')
      | (None, (closestKey, closestChildren, closestValue, path), t') \<Rightarrow>
          if closestKey = ToKey (tokenSize t) key then
            (Inr \<lparr>proof_Path = path, proof_Key = ToKey (tokenSize t) key,
                  proof_Value = closestValue\<rparr>, t')
          else
            (case Token (tokenSize t') (ToKey (tokenSize t) key)
                    (key_length (tokenSize t') closestKey) of
               None \<Rightarrow> (Inl Panic, t')
             | Some nextIndex \<Rightarrow>
                 (case children_lookup closestChildren nextIndex of
                    None \<Rightarrow>
                      (Inr \<lparr>proof_Path = path, proof_Key = ToKey (tokenSize t) key,
                            proof_Value = None\<rparr>, t')
                  | Some entry \<Rightarrow>
                      (case getChildren t' (Extend closestKey [ToToken nextIndex, compressedKey entry]) of
                         (Inl err, t1) \<Rightarrow> (Inl err, t1)
                       | (Inr (childChildren, _), t1) \<Rightarrow>
                           (case getValue t1 (Extend closestKey [ToToken nextIndex, compressedKey entry]) of
                              (Inl err, t2) \<Rightarrow> (Inl err, t2)
                            | (Inr childValue, t2) \<Rightarrow>
                                if isInvalid t2 then (Inl ErrInvalid, t2)
                                else
                                  (Inr \<lparr>proof_Path = path @
                                          [asProofNode
                                             (Extend closestKey [ToToken nextIndex, compressedKey entry])
                                             childChildren childValue],
                                        proof_Key = ToKey (tokenSize t) key,
                                        proof_Value = None\<rparr>, t2))))))"

definition GetProof ::
  "nat \<Rightarrow> Key list \<Rightarrow> bool \<Rightarrow> trieView \<Rightarrow> bytes
     \<Rightarrow> ((error + Proof) \<times> trieView) option" where
  "GetProof fuel order late t key =
     (case calculateNodeIDs fuel order late t of
        None \<Rightarrow> None
      | Some (Some err, t') \<Rightarrow> Some (Inl err, t')
      | Some (None, t') \<Rightarrow> Some (getProof t' key))"

section \<open>Range proofs\<close>

record RangeProof =
  StartProof :: "ProofNode list"
  EndProof :: "ProofNode list"
  KeyValues :: "(bytes \<times> bytes) list"

text \<open>
  Modelled from the spec: the iterator of a view (\<open>NewIteratorWithStart\<close> is not
  among the sources). An iterator is the list of entries it yields, in its order,
  and the error it ends with, if any; \<open>Next\<close> is false after the last entry. The
  loop of \<open>GetRangeProof\<close> calls \<open>Next\<close> before it tests the length and the end key,
  so the error of the iterator is seen only if every entry was taken.
\<close>

type_synonym iterator = "(bytes \<times> bytes) list \<times> error option"

fun collectKeyValues ::
  "(bytes \<times> bytes) list \<Rightarrow> error option \<Rightarrow> bytes option \<Rightarrow> int \<Rightarrow> (bytes \<times> bytes) list
     \<Rightarrow> (bytes \<times> bytes) list \<times> error option" where
  "collectKeyValues [] itErr end maxLength kvs = (kvs, itErr)"
| "collectKeyValues ((k, v) # rest) itErr end maxLength kvs =
     (if int (length kvs) < maxLength
         \<and> (end = None \<or> bytes_Compare k (slice_or_nil end) \<le> 0)
      then collectKeyValues rest itErr end maxLength (kvs @ [(k, v)])
      else (kvs, None))"

text \<open>The number of leading proof nodes with the same key in both paths.\<close>

fun commonNodes :: "ProofNode list \<Rightarrow> ProofNode list \<Rightarrow> nat" where
  "commonNodes (a # as) (b # bs) = (if pn_Key a = pn_Key b then Suc (commonNodes as bs) else 0)"
| "commonNodes _ _ = 0"

definition rootKey :: bytes where
  "rootKey = []"

text \<open>
  The three proof paths of \<open>GetRangeProof\<close>, in the order the function builds them:
  the end proof, the start proof with the nodes it shares with the end proof taken
  off, and the proof of the root for a range with nothing in it.
\<close>

definition proofPath :: "(error + Proof) \<times> trieView \<Rightarrow> (error + ProofNode list) \<times> trieView" where
  "proofPath r = (case r of (Inl err, t) \<Rightarrow> (Inl err, t) | (Inr p, t) \<Rightarrow> (Inr (proof_Path p), t))"

definition rangeEndProof ::
  "trieView \<Rightarrow> (bytes \<times> bytes) list \<Rightarrow> bytes option \<Rightarrow> (error + ProofNode list) \<times> trieView" where
  "rangeEndProof t kvs end =
     (if kvs \<noteq> [] then proofPath (getProof t (fst (last kvs)))
      else if end \<noteq> None then proofPath (getProof t (slice_or_nil end))
      else (Inr [], t))"

definition rangeStartProof ::
  "trieView \<Rightarrow> bytes option \<Rightarrow> ProofNode list \<Rightarrow> (error + ProofNode list) \<times> trieView" where
  "rangeStartProof t start endPath =
     (if start \<noteq> None then
        (case proofPath (getProof t (slice_or_nil start)) of
           (Inl err, t') \<Rightarrow> (Inl err, t')
         | (Inr startPath, t') \<Rightarrow> (Inr (drop (commonNodes startPath endPath) startPath), t'))
      else (Inr [], t))"

definition rangeRootProof ::
  "trieView \<Rightarrow> ProofNode list \<Rightarrow> ProofNode list \<Rightarrow> (bytes \<times> bytes) list
     \<Rightarrow> (error + ProofNode list) \<times> trieView" where
  "rangeRootProof t startPath endPath kvs =
     (if startPath = [] \<and> endPath = [] \<and> kvs = [] then proofPath (getProof t rootKey)
      else (Inr endPath, t))"

definition GetRangeProof ::
  "(trieView \<Rightarrow> bytes \<Rightarrow> iterator) \<Rightarrow> nat \<Rightarrow> Key list \<Rightarrow> bool \<Rightarrow> trieView
     \<Rightarrow> bytes option \<Rightarrow> bytes option \<Rightarrow> int
     \<Rightarrow> ((error + RangeProof) \<times> trieView) option" where
  "GetRangeProof NewIteratorWithStart fuel order late t start end maxLength =
     (if start \<noteq> None \<and> end \<noteq> None
         \<and> bytes_Compare (slice_or_nil start) (slice_or_nil end) = 1
      then Some (Inl ErrStartAfterEnd, t)
      else if maxLength \<le> 0 then Some (Inl (ErrInvalidMaxLength maxLength), t)
      else case calculateNodeIDs fuel order late t of
        None \<Rightarrow> None
      | Some (Some err, t1) \<Rightarrow> Some (Inl err, t1)
      | Some (None, t1) \<Rightarrow>
          (case collectKeyValues (fst (NewIteratorWithStart t1 (slice_or_nil start)))
                  (snd (NewIteratorWithStart t1 (slice_or_nil start))) end maxLength [] of
             (kvs, Some err) \<Rightarrow> Some (Inl err, t1)
           | (kvs, None) \<Rightarrow>
               (case rangeEndProof t1 kvs end of
                  (Inl err, t2) \<Rightarrow> Some (Inl err, t2)
                | (Inr endPath, t2) \<Rightarrow>
                    (case rangeStartProof t2 start endPath of
                       (Inl err, t3) \<Rightarrow> Some (Inl err, t3)
                     | (Inr startPath, t3) \<Rightarrow>
                         (case rangeRootProof t3 startPath endPath kvs of
                            (Inl err, t4) \<Rightarrow> Some (Inl err, t4)
                          | (Inr endPath', t4) \<Rightarrow>
                              if isInvalid t4 then Some (Inl ErrInvalid, t4)
                              else Some (Inr \<lparr>StartProof = startPath, EndProof = endPath',
                                              KeyValues = kvs\<rparr>, t4))))))"

section \<open>Creating and invalidating views\<close>

record BatchOp =
  op_Key :: bytes
  op_Value :: bytes
  op_Delete :: bool

text \<open>\<open>MapOps\<close> is a Go map; the list gives its entries in the order of this run.\<close>

record ViewChanges =
  BatchOps :: "BatchOp list"
  MapOps :: "(bytes \<times> bytes option) list"
  ConsumeBytes :: bool

text \<open>The two loops of \<open>newTrieView\<close>: record each change, stop at the first error.\<close>

fun recordValueChanges ::
  "trieView \<Rightarrow> (Key \<times> bytes option) list \<Rightarrow> error option \<times> trieView" where
  "recordValueChanges t [] = (None, t)"
| "recordValueChanges t ((key, val) # ops) =
     (case recordValueChange t key val of
        (Some err, t') \<Rightarrow> (Some err, t')
      | (None, t') \<Rightarrow> recordValueChanges t' ops)"

definition newTrieView :: "nat \<Rightarrow> TrieView \<Rightarrow> ViewChanges \<Rightarrow> error + trieView" where
  "newTrieView dbTokenSize parentTrie' viewChanges =
     (case tv_getChildren parentTrie' emptyKey of
        (Inl err, _) \<Rightarrow> if err = ErrNotFound then Inl ErrNoValidRoot else Inl err
      | (Inr rootChildren, _) \<Rightarrow>
          (case recordValueChanges
                  \<lparr>committed = False, nodesAlreadyCalculated = False, calculateNodesOnce = False,
                   invalidated = False, parentTrie = parentTrie', childViews = [],
                   changes = \<lparr>rootID = Empty, values_map = Map.empty\<rparr>,
                   childrenChanges = [emptyKey \<mapsto> rootChildren],
                   tokenSize = dbTokenSize\<rparr>
                  (map (\<lambda>op. (ToKey dbTokenSize (op_Key op),
                               if op_Delete op then None else Some (op_Value op)))
                     (BatchOps viewChanges)) of
             (Some err, _) \<Rightarrow> Inl err
           | (None, newView) \<Rightarrow>
               (case recordValueChanges newView
                       (map (\<lambda>(key, val). (ToKey dbTokenSize key, val)) (MapOps viewChanges)) of
                  (Some err, _) \<Rightarrow> Inl err
                | (None, newView') \<Rightarrow> Inr newView')))"

text \<open>
  A view as the parent of another: the methods of the interface, read off the view
  as it is now.
\<close>

definition asTrieView :: "trieView \<Rightarrow> TrieView" where
  "asTrieView t =
     \<lparr>tv_getValue = (\<lambda>key. (fst (getValue t key), False)),
      tv_getChildren = (\<lambda>key. (map_sum id fst (fst (getChildren t key)), False))\<rparr>"

text \<open>
  Views refer to each other by pointer: a heap maps a reference to the view it
  points to. \<open>NewView\<close> is given the reference of the view it allocates, and the
  result of \<open>NewView\<close> on the parent trie, to which a committed view passes the call
  on.
\<close>

type_synonym heap = "view_ref \<Rightarrow> trieView"

definition NewView ::
  "(ViewChanges \<Rightarrow> error + view_ref) \<Rightarrow> view_ref \<Rightarrow> nat \<Rightarrow> Key list \<Rightarrow> bool \<Rightarrow> heap
     \<Rightarrow> view_ref \<Rightarrow> ViewChanges \<Rightarrow> ((error + view_ref) \<times> heap) option" where
  "NewView parentNewView fresh fuel order late h r viewChanges =
     (if isInvalid (h r) then Some (Inl ErrInvalid, h)
      else if committed (h r) then Some (parentNewView viewChanges, h)
      else case calculateNodeIDs fuel order late (h r) of
        None \<Rightarrow> None
      | Some (Some err, t1) \<Rightarrow> Some (Inl err, h(r := t1))
      | Some (None, t1) \<Rightarrow>
          (case newTrieView (tokenSize t1) (asTrieView t1) viewChanges of
             Inl err \<Rightarrow> Some (Inl err, h(r := t1))
           | Inr newView \<Rightarrow>
               if invalidated t1 then Some (Inl ErrInvalid, h(r := t1))
               else Some (Inr fresh,
                          h(r := t1\<lparr>childViews := childViews t1 @ [fresh]\<rparr>, fresh := newView))))"

text \<open>
  \<open>invalidate\<close> recurses through the child lists. A list that leads back to the
  view itself would never let it return (the lock is held and taken again), so the
  function takes fuel and \<open>None\<close> says that it ran out.
\<close>

fun invalidate :: "nat \<Rightarrow> heap \<Rightarrow> view_ref \<Rightarrow> heap option"
  and invalidate_children :: "nat \<Rightarrow> heap \<Rightarrow> view_ref list \<Rightarrow> heap option" where
  "invalidate 0 h r = None"
| "invalidate (Suc n) h r =
     (case invalidate_children n (h(r := (h r)\<lparr>invalidated := True\<rparr>)) (childViews (h r)) of
        None \<Rightarrow> None
      | Some h' \<Rightarrow> Some (h'(r := (h' r)\<lparr>childViews := []\<rparr>)))"
| "invalidate_children n h [] = Some h"
| "invalidate_children n h (childView # rest) =
     (case invalidate n h childView of
        None \<Rightarrow> None
      | Some h' \<Rightarrow> invalidate_children n h' rest)"

section \<open>Example data\<close>

text \<open>
  A parent trie with tokens of eight bits: the root has the child \<open>[1]\<close>, which has
  the value \<open>[8]\<close> and the child \<open>[1, 2]\<close> with the value \<open>[9]\<close>. The view on top of it
  has recorded the values \<open>[7]\<close> for the key \<open>[1, 3]\<close> and \<open>[6]\<close> for \<open>[1, 2, 4]\<close>.
\<close>

definition example_parent :: TrieView where
  "example_parent =
     \<lparr>tv_getValue = (\<lambda>k.
         (Inr (if k = [1] then Some [8] else if k = [1, 2] then Some [9] else None), False)),
      tv_getChildren = (\<lambda>k.
         (if k = [] then
            Inr (Some [(1, \<lparr>compressedKey = [],
                            child_id = NodeID [1] [(2, [], NodeID [1, 2] [] (Some [9]))] (Some [8])\<rparr>)])
          else if k = [1] then
            Inr (Some [(2, \<lparr>compressedKey = [], child_id = NodeID [1, 2] [] (Some [9])\<rparr>)])
          else if k = [1, 2] then Inr (Some [])
          else Inl ErrNotFound, False))\<rparr>"

definition example_view :: trieView where
  "example_view =
     \<lparr>committed = False, nodesAlreadyCalculated = False, calculateNodesOnce = False,
      invalidated = False, parentTrie = example_parent, childViews = [],
      changes = \<lparr>rootID = Empty,
                 values_map = [[1, 3] \<mapsto> \<lparr>before = None, after = Some [7]\<rparr>,
                               [1, 2, 4] \<mapsto> \<lparr>before = None, after = Some [6]\<rparr>]\<rparr>,
      childrenChanges =
        [[] \<mapsto> Some [(1, \<lparr>compressedKey = [],
                            child_id = NodeID [1] [(2, [], NodeID [1, 2] [] (Some [9]))] (Some [8])\<rparr>)]],
      tokenSize = 8\<rparr>"

text \<open>
  The changes that make the example view when \<open>newTrieView\<close> records them, and the
  example view after \<open>calculateNodeIDs\<close> has run on it.
\<close>

definition example_changes :: ViewChanges where
  "example_changes =
     \<lparr>BatchOps = [\<lparr>op_Key = [1, 3], op_Value = [7], op_Delete = False\<rparr>,
                  \<lparr>op_Key = [1, 2, 4], op_Value = [6], op_Delete = False\<rparr>],
      MapOps = [], ConsumeBytes = False\<rparr>"

definition example_calculated :: trieView where
  "example_calculated = snd (the (calculateNodeIDs 5 [[1, 3], [1, 2, 4]] False example_view))"

definition example_iterator :: "trieView \<Rightarrow> bytes \<Rightarrow> iterator" where
  "example_iterator t start = ([], None)"

definition example_ops1 :: "(Key \<times> bytes option) list" where
  "example_ops1 = [([1], Some [5]), ([1, 3], None), ([1], None)]"

definition example_ops2 :: "(Key \<times> bytes option) list" where
  "example_ops2 = [([1], None), ([1, 3], None)]"

definition example_entries :: "trieView \<Rightarrow> bytes \<Rightarrow> iterator" where
  "example_entries t start = ([([1, 2, 4], [6]), ([1, 3], [7])], None)"

definition example_range_proof :: RangeProof where
  "example_range_proof =
     \<lparr>StartProof = [],
      EndProof =
        [\<lparr>pn_Key = [], pn_ValueOrHash = None,
          pn_Children =
            [(1, NodeID [1]
                  [(2, [4], NodeID [1, 2, 4] [] (Some [6])),
                   (3, [], NodeID [1, 3] [] (Some [7]))]
                  None)]\<rparr>,
         \<lparr>pn_Key = [1], pn_ValueOrHash = Some [8],
          pn_Children =
            [(2, NodeID [1, 2, 4] [] (Some [6])),
             (3, NodeID [1, 3] [] (Some [7]))]\<rparr>,
         \<lparr>pn_Key = [1, 3], pn_ValueOrHash = Some [7], pn_Children = []\<rparr>],
      KeyValues = [([1, 2, 4], [6]), ([1, 3], [7])]\<rparr>"

text \<open>
  A heap of four views: view 0 has the children 1 and 2, view 1 has the child 3.
\<close>

definition example_heap :: heap where
  "example_heap r =
     example_view\<lparr>childViews := (if r = 0 then [1, 2] else if r = 1 then [3] else [])\<rparr>"

definition example_rank :: "view_ref \<Rightarrow> nat" where
  "example_rank r = (if r = 0 then 2 else if r = 1 then 1 else 0)"

text \<open>
  The example view on a parent that fails with \<open>ErrClosed\<close> while a commit of an
  ancestor invalidates the view.
\<close>

definition example_closing_view :: trieView where
  "example_closing_view =
     example_view\<lparr>parentTrie := example_parent\<lparr>tv_getValue := (\<lambda>k. (Inl ErrClosed, True))\<rparr>\<rparr>"


text \<open>
  An iterator that yields nothing and ends with \<open>ErrClosed\<close>, as the iterators of a
  closed database do.
\<close>

definition example_closed_iterator :: "trieView \<Rightarrow> bytes \<Rightarrow> iterator" where
  "example_closed_iterator t start = ([], Some ErrClosed)"

section \<open>Notions of the specification\<close>

text \<open>
  The \<open>before\<close> value that a change record for a key is meant to hold: the one
  already recorded if there is a record, else the value of the key in the parent
  trie.
\<close>

definition beforeValue :: "trieView \<Rightarrow> Key \<Rightarrow> bytes option" where
  "beforeValue t key =
     (case values_map (changes t) key of
        Some c \<Rightarrow> before c
      | None \<Rightarrow> (case fst (tv_getValue (getParentTrie t) key) of Inr b \<Rightarrow> b | Inl _ \<Rightarrow> None))"

text \<open>
  Modelled from the spec: what \<open>GetRangeProof\<close> relies on from the iterator that
  \<open>NewIteratorWithStart\<close> returns ("each yielding key-ordered entries"): the keys
  come in strictly ascending order and none is below \<open>start\<close>.
\<close>

definition keyOrdered :: "bytes \<Rightarrow> (bytes \<times> bytes) list \<Rightarrow> bool" where
  "keyOrdered start entries =
     (sorted_wrt (\<lambda>a b. bytes_Compare (fst a) (fst b) < 0) entries
      \<and> list_all (\<lambda>e. bytes_Compare start (fst e) \<le> 0) entries)"

text \<open>
  The views reachable from a view through the child lists, the heap in which a set
  of views is invalidated with their child lists cleared, and child lists that form
  a tree or a graph without cycles, as a rank that goes down from a view to each of
  its children shows. (\<open>closedUnder\<close> serves the proofs: a set of views that holds the
  children of its members.)
\<close>

definition childRel :: "heap \<Rightarrow> (view_ref \<times> view_ref) set" where
  "childRel h = {(a, c). c \<in> set (childViews (h a))}"

definition descendants :: "heap \<Rightarrow> view_ref \<Rightarrow> view_ref set" where
  "descendants h r = (childRel h)\<^sup>* `` {r}"

definition markInvalid :: "heap \<Rightarrow> view_ref set \<Rightarrow> heap" where
  "markInvalid h X = (\<lambda>d. if d \<in> X then (h d)\<lparr>invalidated := True, childViews := []\<rparr> else h d)"

definition ranked :: "heap \<Rightarrow> (view_ref \<Rightarrow> nat) \<Rightarrow> bool" where
  "ranked h rank = (\<forall>a c. c \<in> set (childViews (h a)) \<longrightarrow> rank c < rank a)"

definition closedUnder :: "heap \<Rightarrow> view_ref set \<Rightarrow> bool" where
  "closedUnder h A = (\<forall>a c. a \<in> A \<longrightarrow> (a, c) \<in> childRel h \<longrightarrow> c \<in> A)"

section \<open>The pebble database wrapper\<close>

text \<open>
  The storage engine is an external library. Its state is the ascending list of the
  keys it holds and the log of the manual compactions it was asked to run; its
  \<open>Compact\<close> refuses a range with \<open>start \<ge> end\<close> (the wrapper's comment: "pebble's
  Compact will no-op and error if start >= limit").
\<close>

record pebble =
  pb_keys :: "bytes list"
  pb_compactions :: "(bytes \<times> bytes) list"

definition pebble_Compact :: "pebble \<Rightarrow> bytes \<Rightarrow> bytes \<Rightarrow> error option \<times> pebble" where
  "pebble_Compact p start lim =
     (if bytes_Compare start lim \<ge> 0 then (Some (ErrPebble 0), p)
      else (None, p\<lparr>pb_compactions := pb_compactions p @ [(start, lim)]\<rparr>))"

text \<open>\<open>it.Last()\<close> followed by \<open>it.Key()\<close>: the greatest key, \<open>nil\<close> for the empty key.\<close>

definition pebble_Last :: "pebble \<Rightarrow> bytes option option" where
  "pebble_Last p =
     (case pb_keys p of [] \<Rightarrow> None
      | _ \<Rightarrow> Some (if last (pb_keys p) = [] then None else Some (last (pb_keys p))))"

record Database =
  pebbleDB :: pebble
  closed :: bool

definition updateError :: "error option \<Rightarrow> error option" where
  "updateError err = err"

definition Compact :: "Database \<Rightarrow> bytes option \<Rightarrow> bytes option \<Rightarrow> error option \<times> Database" where
  "Compact db start lim =
     (if closed db then (Some ErrClosed, db)
      else if bytes_Compare (slice_or_nil start) (slice_or_nil lim) \<ge> 0 then (None, db)
      else if lim \<noteq> None then
        (let (e, p) = pebble_Compact (pebbleDB db) (slice_or_nil start) (slice_or_nil lim)
         in (updateError e, db\<lparr>pebbleDB := p\<rparr>))
      else
        (case pebble_Last (pebbleDB db) of
           Some (Some lastkey) \<Rightarrow>
             (let (e, p) = pebble_Compact (pebbleDB db) (slice_or_nil start) lastkey
              in (updateError e, db\<lparr>pebbleDB := p\<rparr>))
         | _ \<Rightarrow> (None, db)))"

section \<open>Properties of the database wrapper\<close>

lemma bytes_Compare_nil_right: "bytes_Compare xs [] \<ge> 0"
  by (cases xs) simp_all

text \<open>
  C5. A compaction with \<open>start \<ge> limit\<close> does nothing and returns nil. With a nil
  limit the claim expects a compaction through the greatest key; the code compares
  \<open>start\<close> with the nil limit first, and no key is below the empty slice, so an open
  database returns nil with no compaction requested, whatever it holds.
\<close>

theorem Compact_nil_limit_never_compacts:
  "\<not> closed db \<Longrightarrow> Compact db start None = (None, db)"
  by (simp add: Compact_def slice_or_nil_def bytes_Compare_nil_right)

theorem Compact_nil_limit_never_compacts_witness:
  "\<not> closed \<lparr>pebbleDB = \<lparr>pb_keys = [[1], [2]], pb_compactions = []\<rparr>, closed = False\<rparr>
   \<and> Compact \<lparr>pebbleDB = \<lparr>pb_keys = [[1], [2]], pb_compactions = []\<rparr>, closed = False\<rparr>
        (Some [0]) None
     = (None, \<lparr>pebbleDB = \<lparr>pb_keys = [[1], [2]], pb_compactions = []\<rparr>, closed = False\<rparr>)"
  using Compact_nil_limit_never_compacts
    [of "\<lparr>pebbleDB = \<lparr>pb_keys = [[1], [2]], pb_compactions = []\<rparr>, closed = False\<rparr>" "Some [0]"]
  by simp

section \<open>Properties of a view\<close>

lemma afterParentCall_False [simp]: "afterParentCall False t = t"
  by (simp add: afterParentCall_def)

subsection \<open>The example view\<close>

lemma example_view_from_newTrieView:
  "newTrieView 8 example_parent example_changes = Inr example_view"
  by (simp add: newTrieView_def example_changes_def example_view_def example_parent_def
        emptyKey_def recordValueChange_def getParentTrie_def afterParentCall_def
        ToKey_def byte_tokens_def)

lemma example_calculated_run:
  "fst (the (calculateNodeIDs 5 [[1, 3], [1, 2, 4]] False example_view)) = None
   \<and> nodesAlreadyCalculated example_calculated \<and> \<not> isInvalid example_calculated"
  by code_simp

subsection \<open>Reading a value\<close>

text \<open>
  C4, as the code has it. \<open>getValue\<close> on an invalidated view returns \<open>ErrInvalid\<close>.
  On a valid view it returns the \<open>after\<close> value of the view's own change record for
  the key if there is one, and otherwise calls the parent trie. If the parent
  returns a value, \<open>getValue\<close> returns that value when the view is still valid as
  the call returns, and \<open>ErrInvalid\<close> when the view was invalidated in the meantime.
  If the parent returns an error, \<open>getValue\<close> returns that error, whether or not the
  view was invalidated in the meantime: the parent's error is tested before the
  flag is read again.
\<close>

theorem getValue_own_change_then_parent:
  "(isInvalid t \<longrightarrow> getValue t key = (Inl ErrInvalid, t))
   \<and> (\<not> isInvalid t \<and> values_map (changes t) key = Some c
        \<longrightarrow> getValue t key = (Inr (after c), t))
   \<and> (\<not> isInvalid t \<and> values_map (changes t) key = None
        \<and> tv_getValue (getParentTrie t) key = (Inr v, False)
        \<longrightarrow> getValue t key = (Inr v, t))
   \<and> (\<not> isInvalid t \<and> values_map (changes t) key = None
        \<and> tv_getValue (getParentTrie t) key = (Inr v, True)
        \<longrightarrow> getValue t key = (Inl ErrInvalid, t\<lparr>invalidated := True\<rparr>))
   \<and> (\<not> isInvalid t \<and> values_map (changes t) key = None
        \<and> tv_getValue (getParentTrie t) key = (Inl e, b)
        \<longrightarrow> getValue t key = (Inl e, t\<lparr>invalidated := b\<rparr>))"
  by (simp add: getValue_def afterParentCall_def isInvalid_def)

theorem getValue_own_change_then_parent_witness:
  "getValue (example_view\<lparr>invalidated := True\<rparr>) [1, 3]
     = (Inl ErrInvalid, example_view\<lparr>invalidated := True\<rparr>)
   \<and> getValue example_view [1, 3] = (Inr (Some [7]), example_view)
   \<and> getValue example_view [1] = (Inr (Some [8]), example_view)
   \<and> getValue (example_view\<lparr>parentTrie := example_parent
          \<lparr>tv_getValue := (\<lambda>k. (Inr (Some [8]), True))\<rparr>\<rparr>) [1]
     = (Inl ErrInvalid, example_view\<lparr>parentTrie := example_parent
          \<lparr>tv_getValue := (\<lambda>k. (Inr (Some [8]), True))\<rparr>, invalidated := True\<rparr>)
   \<and> getValue (example_view\<lparr>parentTrie := example_parent
          \<lparr>tv_getValue := (\<lambda>k. (Inl ErrClosed, False))\<rparr>\<rparr>) [1]
     = (Inl ErrClosed, example_view\<lparr>parentTrie := example_parent
          \<lparr>tv_getValue := (\<lambda>k. (Inl ErrClosed, False))\<rparr>, invalidated := False\<rparr>)"
proof -
  let ?inv = "example_view\<lparr>invalidated := True\<rparr>"
  let ?late = "example_view\<lparr>parentTrie := example_parent\<lparr>tv_getValue := (\<lambda>k. (Inr (Some [8]), True))\<rparr>\<rparr>"
  let ?closed = "example_view\<lparr>parentTrie := example_parent\<lparr>tv_getValue := (\<lambda>k. (Inl ErrClosed, False))\<rparr>\<rparr>"
  have 1: "isInvalid ?inv"
    by (simp add: isInvalid_def)
  have 2: "\<not> isInvalid example_view
           \<and> values_map (changes example_view) [1, 3] = Some \<lparr>before = None, after = Some [7]\<rparr>"
    by (simp add: isInvalid_def example_view_def)
  have 3: "\<not> isInvalid example_view \<and> values_map (changes example_view) [1] = None
           \<and> tv_getValue (getParentTrie example_view) [1] = (Inr (Some [8]), False)"
    by (simp add: isInvalid_def example_view_def example_parent_def getParentTrie_def)
  have 4: "\<not> isInvalid ?late \<and> values_map (changes ?late) [1] = None
           \<and> tv_getValue (getParentTrie ?late) [1] = (Inr (Some [8]), True)"
    by (simp add: isInvalid_def example_view_def getParentTrie_def)
  have 5: "\<not> isInvalid ?closed \<and> values_map (changes ?closed) [1] = None
           \<and> tv_getValue (getParentTrie ?closed) [1] = (Inl ErrClosed, False)"
    by (simp add: isInvalid_def example_view_def getParentTrie_def)
  show ?thesis
    using 1 2 3 4 5
      getValue_own_change_then_parent [of ?inv "[1, 3]"]
      getValue_own_change_then_parent [of example_view "[1, 3]" "\<lparr>before = None, after = Some [7]\<rparr>"]
      getValue_own_change_then_parent [of example_view "[1]" _ "Some [8]"]
      getValue_own_change_then_parent [of ?late "[1]" _ "Some [8]"]
      getValue_own_change_then_parent [of ?closed "[1]" _ _ ErrClosed False]
    by simp
qed

text \<open>
  C4 as stated has \<open>getValue\<close> return \<open>ErrInvalid\<close> whenever the view is invalidated
  by the time the call into the parent returns. The view \<open>example_closing_view\<close> is
  valid and has no record for the key \<open>[1]\<close>; its parent fails with \<open>ErrClosed\<close> and
  the view is invalidated when that call returns: \<open>getValue\<close> returns \<open>ErrClosed\<close>.
\<close>

theorem getValue_parent_error_counterexample:
  "\<not> isInvalid example_closing_view
   \<and> values_map (changes example_closing_view) [1] = None
   \<and> fst (getValue example_closing_view [1]) = Inl ErrClosed
   \<and> isInvalid (snd (getValue example_closing_view [1]))
   \<and> ErrClosed \<noteq> ErrInvalid"
  by (simp add: example_closing_view_def example_view_def getValue_def isInvalid_def
        getParentTrie_def afterParentCall_def)

subsection \<open>Removing a key that has no node\<close>

text \<open>
  C6, as the code has it. On a valid view whose node identifiers have not been
  calculated yet, \<open>remove\<close> of a key that has no node (the view has marked it
  deleted, or the view holds nothing for it and the parent trie reports
  \<open>ErrNotFound\<close> or a nil node) returns nil and leaves the view as it was; removing
  it again does the same.
\<close>

theorem remove_absent_key_before_calculation:
  "\<not> nodesAlreadyCalculated t \<Longrightarrow> \<not> isInvalid t \<Longrightarrow>
     childrenChanges t key = Some None
       \<or> childrenChanges t key = None
          \<and> (tv_getChildren (getParentTrie t) key = (Inl ErrNotFound, False)
              \<or> tv_getChildren (getParentTrie t) key = (Inr None, False)) \<Longrightarrow>
     remove_view t key = (None, t)
     \<and> remove_view (snd (remove_view t key)) key = (None, t)"
  by (auto simp: remove_view_def getChildren_def getChildrenInternal_def)

theorem remove_absent_key_before_calculation_witness:
  "\<not> nodesAlreadyCalculated example_view \<and> \<not> isInvalid example_view
   \<and> childrenChanges example_view [5] = None
   \<and> tv_getChildren (getParentTrie example_view) [5] = (Inl ErrNotFound, False)
   \<and> remove_view example_view [5] = (None, example_view)
   \<and> remove_view (snd (remove_view example_view [5])) [5] = (None, example_view)"
proof -
  have pre: "\<not> nodesAlreadyCalculated example_view" "\<not> isInvalid example_view"
    "childrenChanges example_view [5] = None"
    "tv_getChildren (getParentTrie example_view) [5] = (Inl ErrNotFound, False)"
    by (simp_all add: example_view_def example_parent_def isInvalid_def getParentTrie_def)
  show ?thesis
    using pre remove_absent_key_before_calculation [of example_view "[5]"]
    by simp
qed

text \<open>
  C6 as stated speaks of every valid view. The example view is valid after
  \<open>calculateNodeIDs\<close> has run on it, and then refuses the removal of a key without
  a node.
\<close>

theorem remove_absent_key_counterexample:
  "\<not> isInvalid example_calculated
   \<and> childrenChanges example_calculated [5] = None
   \<and> tv_getChildren (getParentTrie example_calculated) [5] = (Inl ErrNotFound, False)
   \<and> fst (remove_view example_calculated [5]) = Some ErrNodesAlreadyCalculated"
  by code_simp

subsection \<open>Arguments of a range proof\<close>

text \<open>
  C7, as the code has it. \<open>GetRangeProof\<close> returns \<open>ErrStartAfterEnd\<close> when both bounds
  are given and \<open>start\<close> is greater than \<open>end\<close>; it returns \<open>ErrInvalidMaxLength\<close> when
  \<open>maxLength\<close> is not positive and the bounds are not in that order. Either way no
  proof is built and the view is unchanged.
\<close>

theorem GetRangeProof_argument_errors:
  "(start \<noteq> None \<and> end \<noteq> None \<and> bytes_Compare (slice_or_nil start) (slice_or_nil end) = 1
      \<longrightarrow> GetRangeProof it fuel order late t start end maxLength = Some (Inl ErrStartAfterEnd, t))
   \<and> (maxLength \<le> 0
       \<and> \<not> (start \<noteq> None \<and> end \<noteq> None \<and> bytes_Compare (slice_or_nil start) (slice_or_nil end) = 1)
      \<longrightarrow> GetRangeProof it fuel order late t start end maxLength
            = Some (Inl (ErrInvalidMaxLength maxLength), t))"
  by (simp add: GetRangeProof_def)

theorem GetRangeProof_argument_errors_witness:
  "GetRangeProof example_iterator 0 [] False example_view (Some [2]) (Some [1]) 5
     = Some (Inl ErrStartAfterEnd, example_view)
   \<and> GetRangeProof example_iterator 0 [] False example_view (Some [1]) (Some [2]) 0
     = Some (Inl (ErrInvalidMaxLength 0), example_view)"
  using GetRangeProof_argument_errors [of "Some [2]" "Some [1]" example_iterator 0 "[]" False example_view 5]
        GetRangeProof_argument_errors [of "Some [1]" "Some [2]" example_iterator 0 "[]" False example_view 0]
  by (simp add: slice_or_nil_def)

text \<open>
  C7 as stated promises \<open>ErrInvalidMaxLength\<close> whenever \<open>maxLength\<close> is not positive.
  With the bounds out of order as well, the check of the bounds comes first.
\<close>

theorem GetRangeProof_both_errors_counterexample:
  "GetRangeProof example_iterator 0 [] False example_view (Some [2]) (Some [1]) 0
     = Some (Inl ErrStartAfterEnd, example_view)
   \<and> ErrStartAfterEnd \<noteq> ErrInvalidMaxLength 0"
  by (simp add: GetRangeProof_def slice_or_nil_def)

subsection \<open>After the node identifiers are calculated\<close>

text \<open>
  C8. Once \<open>nodesAlreadyCalculated\<close> is set, \<open>recordValueChange\<close>, \<open>insert\<close>, \<open>remove\<close>
  and \<open>compressNodePath\<close> return \<open>ErrNodesAlreadyCalculated\<close> and leave the view
  unchanged.
\<close>

theorem mutations_refused_after_calculation:
  "nodesAlreadyCalculated t \<Longrightarrow>
     recordValueChange t key val = (Some ErrNodesAlreadyCalculated, t)
   \<and> insert_view t key = (Inl ErrNodesAlreadyCalculated, t)
   \<and> remove_view t key = (Some ErrNodesAlreadyCalculated, t)
   \<and> compressNodePath t p pk n nk = (Some ErrNodesAlreadyCalculated, t)"
  by (simp add: recordValueChange_def insert_view_def remove_view_def compressNodePath_def)

theorem mutations_refused_after_calculation_witness:
  "nodesAlreadyCalculated example_calculated
   \<and> recordValueChange example_calculated [1, 3] (Some [5])
       = (Some ErrNodesAlreadyCalculated, example_calculated)
   \<and> insert_view example_calculated [1, 3] = (Inl ErrNodesAlreadyCalculated, example_calculated)
   \<and> remove_view example_calculated [1, 3] = (Some ErrNodesAlreadyCalculated, example_calculated)
   \<and> compressNodePath example_calculated (Some []) [] (Some []) [1]
       = (Some ErrNodesAlreadyCalculated, example_calculated)"
proof -
  have flag: "nodesAlreadyCalculated example_calculated"
    using example_calculated_run by simp
  from flag mutations_refused_after_calculation
              [OF flag, of "[1, 3]" "Some [5]" "Some []" "[]" "Some []" "[1]"]
  show ?thesis by (rule conjI)
qed

text \<open>A run of \<open>calculateNodeIDs\<close> that passes its first check sets the flag.\<close>

lemma calculateNodeIDs_sets_flag:
  "\<not> calculateNodesOnce t \<Longrightarrow> \<not> isInvalid t \<Longrightarrow> calculateNodeIDs fuel order late t = Some (err, t')
     \<Longrightarrow> nodesAlreadyCalculated t'"
  by (auto simp: calculateNodeIDs_def calculateNodeIDs_body_def Let_def
           split: if_splits option.splits prod.splits sum.splits)

subsection \<open>Calculating once\<close>


lemma calculateNodeIDs_after_once:
  "calculateNodesOnce t \<Longrightarrow> calculateNodeIDs fuel order late t = Some (None, t)"
  by (simp add: calculateNodeIDs_def)

subsection \<open>Recording value changes\<close>

lemma recordValueChange_ok:
  assumes "recordValueChange t k v = (None, t1)"
  shows "getParentTrie t1 = getParentTrie t"
    and "values_map (changes t1) = (values_map (changes t))(k \<mapsto> \<lparr>before = beforeValue t k, after = v\<rparr>)"
  using assms
  by (auto simp: recordValueChange_def beforeValue_def getParentTrie_def afterParentCall_def Let_def
           split: if_splits option.splits prod.splits sum.splits)

lemma beforeValue_step:
  assumes "recordValueChange t k v = (None, t1)"
  shows "beforeValue t1 key = beforeValue t key"
  using recordValueChange_ok [OF assms]
  by (auto simp: beforeValue_def split: option.splits)

lemma recordValueChanges_values:
  "recordValueChanges t ops = (None, t') \<Longrightarrow>
     values_map (changes t') key =
       (case map_of (rev ops) key of
          None \<Rightarrow> values_map (changes t) key
        | Some v \<Rightarrow> Some \<lparr>before = beforeValue t key, after = v\<rparr>)"
proof (induction ops arbitrary: t)
  case Nil
  then show ?case by simp
next
  case (Cons op ops)
  obtain k v where op: "op = (k, v)" by (cases op)
  from Cons.prems op obtain t1 where
    step: "recordValueChange t k v = (None, t1)" and rest: "recordValueChanges t1 ops = (None, t')"
    by (auto split: prod.splits option.splits)
  note IH = Cons.IH [OF rest]
  show ?case
    using IH recordValueChange_ok(2) [OF step] beforeValue_step [OF step, of key]
    by (auto simp: op map_add_def split: option.splits)
qed

text \<open>
  C10, as the code has it. After a sequence of calls of \<open>recordValueChange\<close> that
  all return nil, the change record of every key that was recorded has as \<open>after\<close>
  the value of the last call for the key, and as \<open>before\<close> the value that the parent
  trie held for the key when the key was first recorded (or the \<open>before\<close> of the
  record the view already had); the records of the other keys are as they were.
  Hence two such sequences with the same last value for every key leave the same
  map of change records.
\<close>

theorem recordValueChanges_last_value_wins:
  "(recordValueChanges t ops = (None, t')
      \<longrightarrow> values_map (changes t') key =
            (case map_of (rev ops) key of
               None \<Rightarrow> values_map (changes t) key
             | Some v \<Rightarrow> Some \<lparr>before = beforeValue t key, after = v\<rparr>))
   \<and> (recordValueChanges t ops1 = (None, t1) \<and> recordValueChanges t ops2 = (None, t2)
       \<and> map_of (rev ops1) = map_of (rev ops2)
      \<longrightarrow> values_map (changes t1) = values_map (changes t2))"
proof (intro conjI impI)
  assume "recordValueChanges t ops = (None, t')"
  then show "values_map (changes t') key =
            (case map_of (rev ops) key of
               None \<Rightarrow> values_map (changes t) key
             | Some v \<Rightarrow> Some \<lparr>before = beforeValue t key, after = v\<rparr>)"
    by (rule recordValueChanges_values)
next
  assume a: "recordValueChanges t ops1 = (None, t1) \<and> recordValueChanges t ops2 = (None, t2)
       \<and> map_of (rev ops1) = map_of (rev ops2)"
  show "values_map (changes t1) = values_map (changes t2)"
  proof
    fix key
    from a have a1: "recordValueChanges t ops1 = (None, t1)"
      and a2: "recordValueChanges t ops2 = (None, t2)"
      by (rule conjunct1, rule conjunct2 [THEN conjunct1])
    note e1 = recordValueChanges_values [OF a1, of key]
    note e2 = recordValueChanges_values [OF a2, of key]
    from a have "map_of (rev ops1) key = map_of (rev ops2) key"
      by simp
    then show "values_map (changes t1) key = values_map (changes t2) key"
      unfolding e1 e2 by simp
  qed
qed

lemma example_ops1_run: "fst (recordValueChanges example_view example_ops1) = None"
  by (simp add: example_ops1_def recordValueChange_def example_view_def example_parent_def
        getParentTrie_def afterParentCall_def)

lemma example_ops2_run: "fst (recordValueChanges example_view example_ops2) = None"
  by (simp add: example_ops2_def recordValueChange_def example_view_def example_parent_def
        getParentTrie_def afterParentCall_def)

theorem recordValueChanges_last_value_wins_witness:
  "fst (recordValueChanges example_view example_ops1) = None
   \<and> fst (recordValueChanges example_view example_ops2) = None
   \<and> values_map (changes (snd (recordValueChanges example_view example_ops1))) [1]
       = Some \<lparr>before = Some [8], after = None\<rparr>
   \<and> values_map (changes (snd (recordValueChanges example_view example_ops1))) [1, 3]
       = Some \<lparr>before = None, after = None\<rparr>
   \<and> values_map (changes (snd (recordValueChanges example_view example_ops1)))
       = values_map (changes (snd (recordValueChanges example_view example_ops2)))"
proof -
  let ?t1 = "snd (recordValueChanges example_view example_ops1)"
  let ?t2 = "snd (recordValueChanges example_view example_ops2)"
  have r1: "recordValueChanges example_view example_ops1 = (None, ?t1)"
    using example_ops1_run by (simp add: prod_eq_iff)
  have r2: "recordValueChanges example_view example_ops2 = (None, ?t2)"
    using example_ops2_run by (simp add: prod_eq_iff)
  have same: "map_of (rev example_ops1) = map_of (rev example_ops2)"
    by (auto simp: example_ops1_def example_ops2_def)
  have b1: "beforeValue example_view [1] = Some [8]" and b13: "beforeValue example_view [1, 3] = None"
    by (simp_all add: beforeValue_def example_view_def example_parent_def getParentTrie_def)
  have m1: "map_of (rev example_ops1) [1] = Some None" and m13: "map_of (rev example_ops1) [1, 3] = Some None"
    by (simp_all add: example_ops1_def)
  have v1: "values_map (changes ?t1) [1] = Some \<lparr>before = Some [8], after = None\<rparr>"
    using recordValueChanges_last_value_wins
            [of example_view example_ops1 ?t1 "[1]", THEN conjunct1, THEN mp, OF r1]
    by (simp add: m1 b1)
  have v13: "values_map (changes ?t1) [1, 3] = Some \<lparr>before = None, after = None\<rparr>"
    using recordValueChanges_last_value_wins
            [of example_view example_ops1 ?t1 "[1, 3]", THEN conjunct1, THEN mp, OF r1]
    by (simp add: m13 b13)
  have eq: "values_map (changes ?t1) = values_map (changes ?t2)"
    by (rule recordValueChanges_last_value_wins
               [of example_view _ _ _ example_ops1 ?t1 example_ops2 ?t2,
                THEN conjunct2, THEN mp, OF conjI [OF r1 conjI [OF r2 same]]])
  show ?thesis
    by (intro conjI example_ops1_run example_ops2_run v1 v13 eq)
qed

text \<open>
  C10 as stated speaks of any sequence of calls. A call made after
  \<open>calculateNodeIDs\<close> has run returns \<open>ErrNodesAlreadyCalculated\<close> and records
  nothing: the change record of \<open>[1, 3]\<close> keeps the earlier \<open>after\<close> value \<open>[7]\<close>,
  not the value \<open>[9]\<close> of this most recent call.
\<close>

theorem recordValueChange_after_calculation_counterexample:
  "fst (recordValueChanges example_calculated [([1, 3], Some [9])]) = Some ErrNodesAlreadyCalculated
   \<and> values_map (changes (snd (recordValueChanges example_calculated [([1, 3], Some [9])]))) [1, 3]
     = Some \<lparr>before = None, after = Some [7]\<rparr>
   \<and> Some [7] \<noteq> Some [9::byte]"
  by code_simp

subsection \<open>The root identifier and the order of the changes\<close>

text \<open>
  The example view holds changes for the keys \<open>[1, 3]\<close> and \<open>[1, 2, 4]\<close>. The loop of
  \<open>calculateNodeIDs\<close> may meet them in either order. When \<open>[1, 3]\<close> comes first, the
  node \<open>[1]\<close>, so far known to the parent trie only, gets a fresh child map with the
  one entry for \<open>[1, 3]\<close>, and the later insertion of \<open>[1, 2, 4]\<close> finds no child
  \<open>2\<close> there and hangs the new leaf under \<open>[1]\<close> with the compressed key \<open>[4]\<close>. When
  \<open>[1, 2, 4]\<close> comes first, the walk goes through the parent's node \<open>[1, 2]\<close>, and
  the leaf ends up under \<open>[1, 2]\<close>.
\<close>

lemma root_order_a:
  "map_option fst (GetMerkleRoot 5 [[1, 3], [1, 2, 4]] False example_view)
     = Some (Inr (NodeID []
         [(1, [],
           NodeID [1]
            [(2, [4], NodeID [1, 2, 4] [] (Some [6])),
             (3, [], NodeID [1, 3] [] (Some [7]))]
            None)]
         None))"
  by code_simp

lemma root_order_b:
  "map_option fst (GetMerkleRoot 5 [[1, 2, 4], [1, 3]] False example_view)
     = Some (Inr (NodeID []
         [(1, [],
           NodeID [1]
            [(2, [],
              NodeID [1, 2] [(4, [], NodeID [1, 2, 4] [] (Some [6]))] None),
             (3, [], NodeID [1, 3] [] (Some [7]))]
            None)]
         None))"
  by code_simp

lemma example_view_changed_keys:
  "dom (values_map (changes example_view)) = set [[1, 3], [1, 2, 4]]"
  by (auto simp: example_view_def dom_def)

text \<open>
  C1. Two views on the same state with the same final key-value set are to have the
  same root identifier, whatever the order in which the map of changes is iterated.
  On the example view the two orders give two different roots.
\<close>

theorem GetMerkleRoot_depends_on_iteration_order:
  "map_option fst (GetMerkleRoot 5 [[1, 3], [1, 2, 4]] False example_view)
     \<noteq> map_option fst (GetMerkleRoot 5 [[1, 2, 4], [1, 3]] False example_view)"
  unfolding root_order_a root_order_b by simp

subsection \<open>The walk and the proof of a key\<close>

declare visitPathToKey_loop.simps [simp del]

text \<open>
  What every successful call of the callback establishes holds of the variables
  it has captured when the walk is over.
\<close>

lemma visitPathToKey_loop_invariant:
  assumes visit: "\<And>k c s a t a' t'. visitNode k c s a t = (None, a', t') \<Longrightarrow> P a'"
  shows "P acc \<Longrightarrow> visitPathToKey_loop visitNode key currentKey currentChildren acc t = (None, acc', t')
           \<Longrightarrow> P acc'"
  using visit
proof (induction visitNode key currentKey currentChildren acc t rule: visitPathToKey_loop.induct)
  case (1 visitNode key currentKey currentChildren acc t)
  note run = "1.prems"(2) [unfolded visitPathToKey_loop.simps [of visitNode key currentKey currentChildren acc t]]
  show ?case
  proof (cases "key_length (tokenSize t) currentKey < key_length (tokenSize t) key")
    case False
    with run "1.prems"(1) show ?thesis by simp
  next
    case lt: True
    show ?thesis
    proof (cases "Token (tokenSize t) key (key_length (tokenSize t) currentKey)")
      case None
      with run lt show ?thesis by simp
    next
      case tok: (Some tok)
      show ?thesis
      proof (cases "children_lookup currentChildren tok")
        case None
        with run lt tok "1.prems"(1) show ?thesis by simp
      next
        case entry: (Some nextChildEntry)
        let ?k = "Take (tokenSize t) key
                    (key_length (tokenSize t) currentKey + tokenSize t
                       + key_length (tokenSize t) (compressedKey nextChildEntry))"
        show ?thesis
        proof (cases "iteratedHasPrefix (tokenSize t) key (compressedKey nextChildEntry)
                         (key_length (tokenSize t) currentKey + tokenSize t)")
          case False
          with run lt tok entry "1.prems"(1) show ?thesis by simp
        next
          case pre: True
          obtain x y where g: "getChildrenInternal t ?k = (x, y)" by (cases "getChildrenInternal t ?k")
          show ?thesis
          proof (cases x)
            case (Inl err)
            with run lt tok entry pre g show ?thesis by simp
          next
            case (Inr b)
            obtain xa ya where b: "b = (xa, ya)" by (cases b)
            obtain xb xc yc where v: "visitNode ?k xa ya acc y = (xb, xc, yc)"
              by (cases "visitNode ?k xa ya acc y")
            show ?thesis
            proof (cases xb)
              case (Some err)
              with run lt tok entry pre g Inr b v show ?thesis by simp
            next
              case None
              from v None have P: "P xc" by (auto intro: "1.prems"(3))
              from run lt tok entry pre g Inr b v None
              have rec: "visitPathToKey_loop visitNode key ?k xa xc yc = (None, acc', t')"
                by simp
              from pre have pre': "\<not> \<not> iteratedHasPrefix (tokenSize t) key (compressedKey nextChildEntry)
                         (key_length (tokenSize t) currentKey + tokenSize t)"
                by simp
              show ?thesis
                by (rule "1.IH" [OF lt tok entry pre' g [symmetric] Inr b [symmetric] v [symmetric]
                                    None refl P rec "1.prems"(3)])
            qed
          qed
        qed
      qed
    qed
  qed
qed

subsection \<open>The root identifier after a failed calculation\<close>


lemma getChildrenInternal_changes: "getChildrenInternal t key = (r, t') \<Longrightarrow> changes t' = changes t"
  by (auto simp: getChildrenInternal_def afterParentCall_def Let_def
           split: if_splits option.splits prod.splits sum.splits)

lemma getChildren_changes: "getChildren t key = (r, t') \<Longrightarrow> changes t' = changes t"
  by (auto simp: getChildren_def split: if_splits prod.splits sum.splits
           dest: getChildrenInternal_changes)






lemma recordNewNode_changes: "changes (snd (recordNewNode t key)) = changes t"
  by (simp add: recordNewNode_def)





lemma getChildrenInternal_changes':
  "getChildrenInternal t k = (r, t') \<Longrightarrow> changes t = x \<Longrightarrow> changes t' = x"
  by (auto dest: getChildrenInternal_changes)





lemma storeChildID_changes: "changes (storeChildID t key stored i entry) = changes t"
  by (simp add: storeChildID_def split: option.splits)

lemma calculateNodeIDsHelper_changes:
  "calculateNodeIDsHelper n t key val = Some (r, t') \<Longrightarrow> changes t' = changes t"
  "calculateChildIDs n t key stored cs ready = Some (r', t') \<Longrightarrow> changes t' = changes t"
proof (induction n t key val and n t key stored cs ready arbitrary: r t' and r' t'
        rule: calculateNodeIDsHelper_calculateChildIDs.induct)
  case (1 t key val)
  then show ?case by simp
next
  case (2 n t key val)
  obtain g t1 where g: "getChildren t key = (g, t1)" by (cases "getChildren t key")
  from getChildren_changes [OF g] have t1: "changes t1 = changes t" .
  show ?case
  proof (cases g)
    case (Inl err)
    with "2.prems" g t1 show ?thesis by simp
  next
    case (Inr b)
    obtain children stored where b: "b = (children, stored)" by (cases b)
    from "2.prems" g Inr b obtain r2 where
      kids: "calculateChildIDs n t1 key stored (case children of None \<Rightarrow> [] | Some cs \<Rightarrow> cs) []
               = Some (r2, t')"
      by (auto split: option.splits prod.splits sum.splits)
    from "2.IH" [OF g [symmetric] Inr b [symmetric] kids] t1 show ?thesis by simp
  qed
next
  case (3 n t key stored ready)
  then show ?case by simp
next
  case (4 n t key stored childIndex entry rest ready)
  let ?path = "Extend key [ToToken childIndex, compressedKey entry]"
  show ?case
  proof (cases "(childrenChanges t ?path = None \<and> values_map (changes t) ?path = None)
                  \<or> child_id entry \<noteq> Empty")
    case True
    with "4.prems" have "calculateChildIDs n t key stored rest (ready @ [(childIndex, entry)]) = Some (r', t')"
      by simp
    from "4.IH"(1) [OF True this] show ?thesis .
  next
    case False
    let ?val = "case values_map (changes t) ?path of None \<Rightarrow> None | Some valueChange \<Rightarrow> after valueChange"
    from "4.prems" False obtain x t1 where h: "calculateNodeIDsHelper n t ?path ?val = Some (x, t1)"
      by (auto split: option.splits prod.splits sum.splits)
    from "4.IH"(2) [OF False h] have t1: "changes t1 = changes t" .
    show ?thesis
    proof (cases x)
      case (Inl err)
      with "4.prems" False h t1 show ?thesis by auto
    next
      case (Inr newID)
      with "4.prems" False h have rest:
        "calculateChildIDs n (storeChildID t1 key stored childIndex (entry\<lparr>child_id := newID\<rparr>))
           key stored rest (ready @ [(childIndex, entry\<lparr>child_id := newID\<rparr>)]) = Some (r', t')"
        by auto
      from "4.IH"(3) [OF False h refl Inr rest] t1 show ?thesis
        by (simp add: storeChildID_changes)
    qed
  qed
qed






subsection \<open>Range proofs\<close>

lemma collectKeyValues_prefix:
  "collectKeyValues entries e end m acc = (kvs, err) \<Longrightarrow> \<exists>n. kvs = acc @ take n entries"
proof (induction entries arbitrary: acc)
  case Nil
  then show ?case by simp
next
  case (Cons x xs)
  obtain k v where x: "x = (k, v)" by (cases x)
  show ?case
  proof (cases "int (length acc) < m \<and> (end = None \<or> bytes_Compare k (slice_or_nil end) \<le> 0)")
    case True
    with Cons.prems x have "collectKeyValues xs e end m (acc @ [(k, v)]) = (kvs, err)"
      by simp
    from Cons.IH [OF this] obtain n where "kvs = (acc @ [(k, v)]) @ take n xs" ..
    then have "kvs = acc @ take (Suc n) (x # xs)" by (simp add: x)
    then show ?thesis ..
  next
    case False
    with Cons.prems x have "kvs = acc @ take 0 (x # xs)" by auto
    then show ?thesis ..
  qed
qed

lemma collectKeyValues_length:
  "collectKeyValues entries e end m acc = (kvs, err) \<Longrightarrow> int (length acc) \<le> m
     \<Longrightarrow> int (length kvs) \<le> m"
  by (induction entries arbitrary: acc) (auto split: if_splits)

lemma collectKeyValues_end:
  "collectKeyValues entries e end m acc = (kvs, err) \<Longrightarrow>
   list_all (\<lambda>x. end = None \<or> bytes_Compare (fst x) (slice_or_nil end) \<le> 0) acc \<Longrightarrow>
   list_all (\<lambda>x. end = None \<or> bytes_Compare (fst x) (slice_or_nil end) \<le> 0) kvs"
  by (induction entries arbitrary: acc) (auto split: if_splits)

lemma getProof_visitNode_path:
  "getProof_visitNode k c s a t = (None, a', t') \<Longrightarrow> snd (snd (snd a')) \<noteq> []"
  by (auto simp: getProof_visitNode_def split: prod.splits sum.splits)

lemma visitPathToKey_getProof_path:
  assumes "visitPathToKey t key getProof_visitNode a = (None, a', t')"
  shows "snd (snd (snd a')) \<noteq> []"
proof -
  obtain cc st where root: "(case childrenChanges t emptyKey of
               Some (Some m) \<Rightarrow> (Some m, True)
             | _ \<Rightarrow> (None, False)) = (cc, st)"
    by (cases "case childrenChanges t emptyKey of
               Some (Some m) \<Rightarrow> (Some m, True)
             | _ \<Rightarrow> (None :: nodeChildren option, False)")
  obtain r a1 t1 where first: "getProof_visitNode emptyKey cc st a t = (r, a1, t1)"
    by (cases "getProof_visitNode emptyKey cc st a t")
  from assms root first have r: "r = None"
    and loop: "visitPathToKey_loop getProof_visitNode key emptyKey cc a1 t1 = (None, a', t')"
    by (auto simp: visitPathToKey_def split: option.splits)
  from first r have start: "snd (snd (snd a1)) \<noteq> []"
    by (simp add: getProof_visitNode_path)
  from start loop show ?thesis
    by (rule visitPathToKey_loop_invariant [where P = "\<lambda>a. snd (snd (snd a)) \<noteq> []", rotated 1])
       (rule getProof_visitNode_path)
qed

lemma getProof_path_nonempty:
  "getProof t key = (Inr p, t') \<Longrightarrow> proof_Path p \<noteq> []"
  by (auto simp: getProof_def split: prod.splits option.splits sum.splits if_splits
           dest!: visitPathToKey_getProof_path)

lemma proofPath_Inr:
  "proofPath r = (Inr path, t') \<Longrightarrow> \<exists>p. r = (Inr p, t') \<and> path = proof_Path p"
  by (auto simp: proofPath_def split: prod.splits sum.splits)

text \<open>
  C3. Let the iterator of the view yield its keys in strictly ascending order, none
  below \<open>start\<close>. A range proof that \<open>GetRangeProof\<close> returns has its key-value pairs
  in strictly ascending key order, every key between \<open>start\<close> and \<open>end\<close>, and at most
  \<open>maxLength\<close> of them; its end proof is the path of the proof of the greatest key
  returned, or of \<open>end\<close> when no pair is returned and \<open>end\<close> is given, built on the
  view as \<open>calculateNodeIDs\<close> leaves it. (A proof is returned only for a valid view,
  bounds in order and a positive \<open>maxLength\<close>.)
\<close>

theorem GetRangeProof_key_values_and_end_proof:
  assumes it: "\<And>t'. keyOrdered (slice_or_nil start) (fst (it t' (slice_or_nil start)))"
    and run: "map_option fst (GetRangeProof it fuel order late t start end maxLength) = Some (Inr rp)"
  shows "sorted_wrt (\<lambda>a b. bytes_Compare (fst a) (fst b) < 0) (KeyValues rp)
    \<and> list_all (\<lambda>e. bytes_Compare (slice_or_nil start) (fst e) \<le> 0
                     \<and> (end = None \<or> bytes_Compare (fst e) (slice_or_nil end) \<le> 0)) (KeyValues rp)
    \<and> int (length (KeyValues rp)) \<le> maxLength
    \<and> (\<exists>t1 t2. calculateNodeIDs fuel order late t = Some (None, t1)
          \<and> (if KeyValues rp \<noteq> []
              then proofPath (getProof t1 (fst (last (KeyValues rp)))) = (Inr (EndProof rp), t2)
              else if end \<noteq> None
              then proofPath (getProof t1 (slice_or_nil end)) = (Inr (EndProof rp), t2)
              else True))"
proof -
  from run obtain t1 kvs endPath t2 startPath t3 endPath' t4 where
    m: "0 < maxLength"
    and calc: "calculateNodeIDs fuel order late t = Some (None, t1)"
    and coll: "collectKeyValues (fst (it t1 (slice_or_nil start))) (snd (it t1 (slice_or_nil start)))
                 end maxLength [] = (kvs, None)"
    and e: "rangeEndProof t1 kvs end = (Inr endPath, t2)"
    and s: "rangeStartProof t2 start endPath = (Inr startPath, t3)"
    and r: "rangeRootProof t3 startPath endPath kvs = (Inr endPath', t4)"
    and rp: "rp = \<lparr>StartProof = startPath, EndProof = endPath', KeyValues = kvs\<rparr>"
    by (auto simp: GetRangeProof_def split: if_splits option.splits prod.splits sum.splits)
  let ?entries = "fst (it t1 (slice_or_nil start))"
  from collectKeyValues_prefix [OF coll] obtain n where kvs: "kvs = take n ?entries"
    by auto
  from it [of t1] have ord: "sorted_wrt (\<lambda>a b. bytes_Compare (fst a) (fst b) < 0) ?entries"
    and low: "list_all (\<lambda>e. bytes_Compare (slice_or_nil start) (fst e) \<le> 0) ?entries"
    by (simp_all add: keyOrdered_def)
  have 1: "sorted_wrt (\<lambda>a b. bytes_Compare (fst a) (fst b) < 0) kvs"
    unfolding kvs using ord by (rule sorted_wrt_take)
  have lo: "list_all (\<lambda>e. bytes_Compare (slice_or_nil start) (fst e) \<le> 0) kvs"
    unfolding kvs using low by (auto simp: list_all_iff dest: in_set_takeD)
  have hi: "list_all (\<lambda>x. end = None \<or> bytes_Compare (fst x) (slice_or_nil end) \<le> 0) kvs"
    using collectKeyValues_end [OF coll] by simp
  have 2: "list_all (\<lambda>e. bytes_Compare (slice_or_nil start) (fst e) \<le> 0
                     \<and> (end = None \<or> bytes_Compare (fst e) (slice_or_nil end) \<le> 0)) kvs"
    using lo hi by (simp add: list_all_iff)
  have 3: "int (length kvs) \<le> maxLength"
    using collectKeyValues_length [OF coll] m by simp
  have 4: "if kvs \<noteq> []
           then proofPath (getProof t1 (fst (last kvs))) = (Inr endPath', t2)
           else if end \<noteq> None
           then proofPath (getProof t1 (slice_or_nil end)) = (Inr endPath', t2)
           else True"
  proof (cases "kvs = []")
    case False
    with r have "endPath' = endPath" by (simp add: rangeRootProof_def)
    with e False show ?thesis by (simp add: rangeEndProof_def)
  next
    case True
    show ?thesis
    proof (cases "end = None")
      case True
      with \<open>kvs = []\<close> show ?thesis by simp
    next
      case False
      with e \<open>kvs = []\<close> have pe: "proofPath (getProof t1 (slice_or_nil end)) = (Inr endPath, t2)"
        by (simp add: rangeEndProof_def)
      from proofPath_Inr [OF this] obtain p where
        "getProof t1 (slice_or_nil end) = (Inr p, t2)" and "endPath = proof_Path p"
        by blast
      then have "endPath \<noteq> []" by (simp add: getProof_path_nonempty)
      with r have "endPath' = endPath" by (simp add: rangeRootProof_def)
      with pe False \<open>kvs = []\<close> show ?thesis by simp
    qed
  qed
  from 1 2 3 4 calc show ?thesis
    unfolding rp by auto
qed

lemma example_entries_ordered:
  "keyOrdered (slice_or_nil (Some [1])) (fst (example_entries t' (slice_or_nil (Some [1]))))"
  by (simp add: keyOrdered_def example_entries_def slice_or_nil_def)

lemma example_range_proof_run:
  "map_option fst
     (GetRangeProof example_entries 5 [[1, 3], [1, 2, 4]] False example_view (Some [1]) (Some [1, 3]) 10)
   = Some (Inr example_range_proof)"
  by code_simp

theorem GetRangeProof_key_values_and_end_proof_witness:
  "keyOrdered (slice_or_nil (Some [1])) (fst (example_entries example_view (slice_or_nil (Some [1]))))
   \<and> map_option fst
        (GetRangeProof example_entries 5 [[1, 3], [1, 2, 4]] False example_view (Some [1]) (Some [1, 3]) 10)
      = Some (Inr example_range_proof)
   \<and> (sorted_wrt (\<lambda>a b. bytes_Compare (fst a) (fst b) < 0) (KeyValues example_range_proof)
    \<and> list_all (\<lambda>e. bytes_Compare (slice_or_nil (Some [1])) (fst e) \<le> 0
                     \<and> ((Some [1, 3] :: bytes option) = None
                         \<or> bytes_Compare (fst e) (slice_or_nil (Some [1, 3])) \<le> 0))
         (KeyValues example_range_proof)
    \<and> int (length (KeyValues example_range_proof)) \<le> 10
    \<and> (\<exists>t1 t2. calculateNodeIDs 5 [[1, 3], [1, 2, 4]] False example_view = Some (None, t1)
          \<and> (if KeyValues example_range_proof \<noteq> []
              then proofPath (getProof t1 (fst (last (KeyValues example_range_proof))))
                     = (Inr (EndProof example_range_proof), t2)
              else if (Some [1, 3] :: bytes option) \<noteq> None
              then proofPath (getProof t1 (slice_or_nil (Some [1, 3])))
                     = (Inr (EndProof example_range_proof), t2)
              else True)))"
  by (intro conjI [OF example_entries_ordered] conjI [OF example_range_proof_run]
        GetRangeProof_key_values_and_end_proof [OF example_entries_ordered example_range_proof_run])

subsection \<open>Invalidation\<close>

lemma ranked_descendant:
  assumes "ranked h rank" and "(a, b) \<in> (childRel h)\<^sup>*"
  shows "rank b \<le> rank a"
  using assms(2)
proof (induction rule: rtrancl_induct)
  case base
  show ?case by simp
next
  case (step y z)
  from step.hyps(2) assms(1) have "rank z < rank y"
    by (simp add: childRel_def ranked_def)
  with step.IH show ?case by simp
qed

lemma descendants_unfold:
  "descendants h r = insert r (\<Union>c \<in> set (childViews (h r)). descendants h c)"
proof (rule set_eqI)
  fix x
  show "x \<in> descendants h r \<longleftrightarrow> x \<in> insert r (\<Union>c \<in> set (childViews (h r)). descendants h c)"
  proof
    assume "x \<in> descendants h r"
    then have "(r, x) \<in> (childRel h)\<^sup>*" by (simp add: descendants_def)
    then show "x \<in> insert r (\<Union>c \<in> set (childViews (h r)). descendants h c)"
      by (cases rule: converse_rtranclE) (auto simp: descendants_def childRel_def)
  next
    assume "x \<in> insert r (\<Union>c \<in> set (childViews (h r)). descendants h c)"
    then show "x \<in> descendants h r"
      by (auto simp: descendants_def childRel_def intro: converse_rtrancl_into_rtrancl)
  qed
qed

lemma child_not_ancestor:
  assumes "ranked h rank" and "c \<in> set (childViews (h r))"
  shows "r \<notin> descendants h c"
proof
  assume "r \<in> descendants h c"
  then have "rank r \<le> rank c"
    using ranked_descendant [OF assms(1)] by (simp add: descendants_def)
  moreover from assms have "rank c < rank r" by (simp add: ranked_def)
  ultimately show False by simp
qed

lemma childRel_markInvalid:
  "childRel (markInvalid h A) = {(a, c). (a, c) \<in> childRel h \<and> a \<notin> A}"
  by (auto simp: childRel_def markInvalid_def split: if_splits)

lemma ranked_markInvalid: "ranked h rank \<Longrightarrow> ranked (markInvalid h A) rank"
  by (simp add: ranked_def markInvalid_def)

lemma markInvalid_twice: "markInvalid (markInvalid h A) B = markInvalid h (A \<union> B)"
  by (rule ext) (simp add: markInvalid_def)

lemma markInvalid_empty: "markInvalid h {} = h"
  by (simp add: markInvalid_def)

lemma closedUnder_descendants: "closedUnder h (descendants h c)"
  by (auto simp: closedUnder_def descendants_def intro: rtrancl_into_rtrancl)

lemma closedUnder_Un: "closedUnder h A \<Longrightarrow> closedUnder h B \<Longrightarrow> closedUnder h (A \<union> B)"
  by (auto simp: closedUnder_def)

lemma descendants_markInvalid:
  assumes "closedUnder h A"
  shows "A \<union> descendants (markInvalid h A) c = A \<union> descendants h c"
proof (rule set_eqI, rule iffI)
  fix x
  assume "x \<in> A \<union> descendants (markInvalid h A) c"
  moreover have "(childRel (markInvalid h A))\<^sup>* \<subseteq> (childRel h)\<^sup>*"
    by (rule rtrancl_mono) (auto simp: childRel_markInvalid)
  ultimately show "x \<in> A \<union> descendants h c"
    by (auto simp: descendants_def)
next
  fix x
  assume x: "x \<in> A \<union> descendants h c"
  have "(c, y) \<in> (childRel h)\<^sup>* \<Longrightarrow> y \<in> A \<or> (c, y) \<in> (childRel (markInvalid h A))\<^sup>*" for y
  proof (induction rule: rtrancl_induct)
    case base
    show ?case by simp
  next
    case (step y z)
    show ?case
    proof (cases "y \<in> A")
      case True
      with assms step.hyps(2) have "z \<in> A" by (auto simp: closedUnder_def)
      then show ?thesis ..
    next
      case False
      with step.IH have "(c, y) \<in> (childRel (markInvalid h A))\<^sup>*" by simp
      moreover from False step.hyps(2) have "(y, z) \<in> childRel (markInvalid h A)"
        by (simp add: childRel_markInvalid)
      ultimately show ?thesis by (auto intro: rtrancl_into_rtrancl)
    qed
  qed
  with x show "x \<in> A \<union> descendants (markInvalid h A) c"
    by (auto simp: descendants_def)
qed

lemma invalidate_children_marks:
  assumes inv: "\<And>h r. ranked h rank \<Longrightarrow> rank r < n \<Longrightarrow>
                  invalidate n h r = Some (markInvalid h (descendants h r))"
  shows "ranked h rank \<Longrightarrow> closedUnder h A \<Longrightarrow> \<forall>c \<in> set cs. rank c < n \<Longrightarrow>
         invalidate_children n (markInvalid h A) cs
           = Some (markInvalid h (A \<union> (\<Union>c \<in> set cs. descendants h c)))"
proof (induction cs arbitrary: A)
  case Nil
  show ?case by simp
next
  case (Cons c cs)
  have "invalidate n (markInvalid h A) c
          = Some (markInvalid (markInvalid h A) (descendants (markInvalid h A) c))"
    using Cons.prems by (intro inv ranked_markInvalid) simp_all
  also have "markInvalid (markInvalid h A) (descendants (markInvalid h A) c)
          = markInvalid h (A \<union> descendants h c)"
    by (simp add: markInvalid_twice descendants_markInvalid [OF Cons.prems(2)])
  finally have step: "invalidate n (markInvalid h A) c = Some (markInvalid h (A \<union> descendants h c))" .
  have "closedUnder h (A \<union> descendants h c)"
    using Cons.prems(2) by (intro closedUnder_Un closedUnder_descendants)
  from Cons.IH [OF Cons.prems(1) this] Cons.prems(3)
  have "invalidate_children n (markInvalid h (A \<union> descendants h c)) cs
          = Some (markInvalid h ((A \<union> descendants h c) \<union> (\<Union>c \<in> set cs. descendants h c)))"
    by simp
  with step show ?case by (simp add: Un_assoc)
qed

lemma invalidate_marks:
  "ranked h rank \<Longrightarrow> rank r < n \<Longrightarrow> invalidate n h r = Some (markInvalid h (descendants h r))"
proof (induction n arbitrary: h r)
  case 0
  then show ?case by simp
next
  case (Suc n)
  let ?h1 = "h(r := (h r)\<lparr>invalidated := True\<rparr>)"
  let ?cs = "childViews (h r)"
  let ?D = "\<Union>c \<in> set ?cs. descendants h c"
  have rel: "childRel ?h1 = childRel h"
    by (auto simp: childRel_def split: if_splits)
  then have desc: "descendants ?h1 c = descendants h c" for c
    by (simp add: descendants_def)
  have ranked1: "ranked ?h1 rank"
    using Suc.prems(1) by (simp add: ranked_def)
  have small: "\<forall>c \<in> set ?cs. rank c < n"
  proof
    fix c
    assume "c \<in> set ?cs"
    with Suc.prems(1) have "rank c < rank r" by (simp add: ranked_def)
    with Suc.prems(2) show "rank c < n" by simp
  qed
  have closed: "closedUnder ?h1 {}"
    by (simp add: closedUnder_def)
  from invalidate_children_marks [of rank n ?h1 "{}" ?cs, OF Suc.IH ranked1 closed small]
  have children: "invalidate_children n ?h1 ?cs = Some (markInvalid ?h1 ?D)"
    by (simp add: markInvalid_empty desc)
  have notin: "r \<notin> ?D"
    using child_not_ancestor [OF Suc.prems(1)] by auto
  have "(markInvalid ?h1 ?D)(r := (markInvalid ?h1 ?D r)\<lparr>childViews := []\<rparr>)
          = markInvalid h (descendants h r)"
    using notin by (subst (2) descendants_unfold) (auto simp: markInvalid_def fun_eq_iff)
  with children show ?case by simp
qed

lemma getValue_invalid: "invalidated t \<Longrightarrow> getValue t key = (Inl ErrInvalid, t)"
  by (simp add: getValue_def isInvalid_def)

lemma getChildren_invalid: "invalidated t \<Longrightarrow> getChildren t key = (Inl ErrInvalid, t)"
  by (simp add: getChildren_def isInvalid_def)

lemma NewView_invalid:
  "invalidated (h r) \<Longrightarrow> NewView parentNewView fresh fuel order late h r viewChanges = Some (Inl ErrInvalid, h)"
  by (simp add: NewView_def isInvalid_def)

lemma getProof_invalid: "invalidated t \<Longrightarrow> getProof t key = (Inl ErrInvalid, t)"
  by (simp add: getProof_def visitPathToKey_def getProof_visitNode_def getValue_invalid
           split: option.splits)

lemma calculateNodeIDs_invalid:
  "invalidated t \<Longrightarrow>
     calculateNodeIDs fuel order late t
       = Some (if calculateNodesOnce t then None else Some ErrInvalid, t\<lparr>calculateNodesOnce := True\<rparr>)"
  by (simp add: calculateNodeIDs_def calculateNodeIDs_body_def isInvalid_def)

lemma GetProof_invalid:
  "invalidated t \<Longrightarrow>
     GetProof fuel order late t key = Some (Inl ErrInvalid, t\<lparr>calculateNodesOnce := True\<rparr>)"
  by (simp add: GetProof_def calculateNodeIDs_invalid getProof_invalid)

lemma collectKeyValues_error:
  "collectKeyValues entries e end m acc = (kvs, err) \<Longrightarrow> err = None \<or> err = e"
  by (induction entries arbitrary: acc) (auto split: if_splits)

lemma GetRangeProof_invalid:
  assumes inv: "invalidated t"
    and bounds: "\<not> (start \<noteq> None \<and> end \<noteq> None
                    \<and> bytes_Compare (slice_or_nil start) (slice_or_nil end) = 1)"
    and len: "0 < maxLength"
  shows "GetRangeProof it fuel order late t start end maxLength
           = Some (Inl (if calculateNodesOnce t
                        then case snd (collectKeyValues (fst (it t (slice_or_nil start)))
                                         (snd (it t (slice_or_nil start))) end maxLength []) of
                               None \<Rightarrow> ErrInvalid
                             | Some err \<Rightarrow> err
                        else ErrInvalid),
                   t\<lparr>calculateNodesOnce := True\<rparr>)"
proof (cases "calculateNodesOnce t")
  case False
  with inv bounds len show ?thesis
    by (simp add: GetRangeProof_def calculateNodeIDs_invalid)
next
  case True
  then have same: "t\<lparr>calculateNodesOnce := True\<rparr> = t" by simp
  from True have calc: "calculateNodeIDs fuel order late t = Some (None, t)"
    by (rule calculateNodeIDs_after_once)
  obtain kvs err where coll:
    "collectKeyValues (fst (it t (slice_or_nil start))) (snd (it t (slice_or_nil start)))
       end maxLength [] = (kvs, err)"
    by (cases "collectKeyValues (fst (it t (slice_or_nil start)))
                 (snd (it t (slice_or_nil start))) end maxLength []")
  show ?thesis
  proof (cases err)
    case (Some e)
    with True bounds len coll calc show ?thesis
      unfolding same by (auto simp: GetRangeProof_def)
  next
    case None
    have proofs: "rangeEndProof t kvs end = (Inl ErrInvalid, t) \<or> rangeEndProof t kvs end = (Inr [], t)"
      by (simp add: rangeEndProof_def proofPath_def getProof_invalid [OF inv])
    have start: "rangeStartProof t start [] = (Inl ErrInvalid, t) \<or> rangeStartProof t start [] = (Inr [], t)"
      by (simp add: rangeStartProof_def proofPath_def getProof_invalid [OF inv])
    have root: "rangeRootProof t [] [] kvs = (Inl ErrInvalid, t) \<or> kvs \<noteq> []"
      by (simp add: rangeRootProof_def proofPath_def getProof_invalid [OF inv])
    have "kvs \<noteq> [] \<Longrightarrow> rangeEndProof t kvs end = (Inl ErrInvalid, t)"
      by (simp add: rangeEndProof_def proofPath_def getProof_invalid [OF inv])
    with True None inv bounds len coll calc proofs start root show ?thesis
      unfolding same by (auto simp: GetRangeProof_def isInvalid_def)
  qed
qed

lemma invalidated_markInvalid:
  "invalidated (markInvalid h X d) \<longleftrightarrow> d \<in> X \<or> invalidated (h d)"
  by (simp add: markInvalid_def)

text \<open>
  C2, as the code has it. Where the child lists have no cycle, \<open>invalidate\<close> on a
  view returns, and it sets \<open>invalidated\<close> and clears the child list on that view and
  on every view reachable from it through the child lists, and changes nothing
  else. On each of these views \<open>getValue\<close>, \<open>getChildren\<close>, \<open>NewView\<close> and \<open>GetProof\<close>
  then return \<open>ErrInvalid\<close>. \<open>GetRangeProof\<close>, when its bounds are in order and
  \<open>maxLength\<close> is positive, returns \<open>ErrInvalid\<close> too, with one exception: on a view
  whose \<open>sync.Once\<close> is already done, \<open>calculateNodeIDs\<close> returns nil, and if the loop
  over the iterator of the view then ends with an error of the iterator, that
  error is returned. The views these operations leave are still invalidated.
\<close>

theorem invalidate_reaches_all_descendants:
  assumes tree: "ranked h rank" and fuel: "rank r < fuel"
  shows "\<exists>h'. invalidate fuel h r = Some h'
    \<and> (\<forall>x. h' x = (if x \<in> descendants h r
                    then (h x)\<lparr>invalidated := True, childViews := []\<rparr> else h x))
    \<and> (d \<in> descendants h r \<longrightarrow>
          invalidated (h' d) \<and> childViews (h' d) = []
        \<and> getValue (h' d) key = (Inl ErrInvalid, h' d)
        \<and> getChildren (h' d) key = (Inl ErrInvalid, h' d)
        \<and> NewView parentNewView fresh fuel' order late' h' d viewChanges = Some (Inl ErrInvalid, h')
        \<and> GetProof fuel' order late' (h' d) bs
            = Some (Inl ErrInvalid, (h' d)\<lparr>calculateNodesOnce := True\<rparr>)
        \<and> (\<not> (start \<noteq> None \<and> end \<noteq> None
                 \<and> bytes_Compare (slice_or_nil start) (slice_or_nil end) = 1)
             \<and> 0 < maxLength
            \<longrightarrow> GetRangeProof it fuel' order late' (h' d) start end maxLength
                  = Some (Inl (if calculateNodesOnce (h' d)
                               then case snd (collectKeyValues
                                                (fst (it (h' d) (slice_or_nil start)))
                                                (snd (it (h' d) (slice_or_nil start)))
                                                end maxLength []) of
                                      None \<Rightarrow> ErrInvalid
                                    | Some err \<Rightarrow> err
                               else ErrInvalid),
                          (h' d)\<lparr>calculateNodesOnce := True\<rparr>)
               \<and> (\<exists>e. GetRangeProof it fuel' order late' (h' d) start end maxLength
                         = Some (Inl e, (h' d)\<lparr>calculateNodesOnce := True\<rparr>)
                       \<and> invalidated ((h' d)\<lparr>calculateNodesOnce := True\<rparr>)
                       \<and> (e = ErrInvalid
                          \<or> calculateNodesOnce (h' d)
                            \<and> snd (it (h' d) (slice_or_nil start)) = Some e))))"
proof (rule exI [of _ "markInvalid h (descendants h r)"], intro conjI allI impI)
  show "invalidate fuel h r = Some (markInvalid h (descendants h r))"
    using tree fuel by (rule invalidate_marks)
  show "markInvalid h (descendants h r) x
          = (if x \<in> descendants h r then (h x)\<lparr>invalidated := True, childViews := []\<rparr> else h x)" for x
    by (simp add: markInvalid_def)
next
  let ?h' = "markInvalid h (descendants h r)"
  assume d: "d \<in> descendants h r"
  then show inv: "invalidated (?h' d)" and "childViews (?h' d) = []"
    by (simp_all add: markInvalid_def)
  from inv show "getValue (?h' d) key = (Inl ErrInvalid, ?h' d)"
    by (rule getValue_invalid)
  from inv show "getChildren (?h' d) key = (Inl ErrInvalid, ?h' d)"
    by (rule getChildren_invalid)
  from inv show "NewView parentNewView fresh fuel' order late' ?h' d viewChanges = Some (Inl ErrInvalid, ?h')"
    by (rule NewView_invalid)
  from inv show "GetProof fuel' order late' (?h' d) bs
                   = Some (Inl ErrInvalid, (?h' d)\<lparr>calculateNodesOnce := True\<rparr>)"
    by (rule GetProof_invalid)
  assume args: "\<not> (start \<noteq> None \<and> end \<noteq> None
                 \<and> bytes_Compare (slice_or_nil start) (slice_or_nil end) = 1)
             \<and> 0 < maxLength"
  let ?coll = "collectKeyValues (fst (it (?h' d) (slice_or_nil start)))
                 (snd (it (?h' d) (slice_or_nil start))) end maxLength []"
  let ?e = "if calculateNodesOnce (?h' d)
            then case snd ?coll of None \<Rightarrow> ErrInvalid | Some err \<Rightarrow> err
            else ErrInvalid"
  from inv args show run: "GetRangeProof it fuel' order late' (?h' d) start end maxLength
                  = Some (Inl ?e, (?h' d)\<lparr>calculateNodesOnce := True\<rparr>)"
    by (intro GetRangeProof_invalid) simp_all
  have "snd ?coll = None \<or> snd ?coll = snd (it (?h' d) (slice_or_nil start))"
    by (rule collectKeyValues_error [of _ _ _ _ _ "fst ?coll"]) simp
  then have "?e = ErrInvalid
             \<or> calculateNodesOnce (?h' d) \<and> snd (it (?h' d) (slice_or_nil start)) = Some ?e"
    by (auto split: option.splits)
  with run inv
  show "\<exists>e. GetRangeProof it fuel' order late' (?h' d) start end maxLength
                         = Some (Inl e, (?h' d)\<lparr>calculateNodesOnce := True\<rparr>)
                       \<and> invalidated ((?h' d)\<lparr>calculateNodesOnce := True\<rparr>)
                       \<and> (e = ErrInvalid
                          \<or> calculateNodesOnce (?h' d)
                            \<and> snd (it (?h' d) (slice_or_nil start)) = Some e)"
    by (intro exI [of _ ?e]) simp
qed

lemma example_heap_ranked: "ranked example_heap example_rank"
  by (auto simp: ranked_def example_heap_def example_rank_def split: if_splits)

lemma example_heap_descendant: "3 \<in> descendants example_heap 0"
proof -
  have "(0, 1) \<in> childRel example_heap" and "(1, 3) \<in> childRel example_heap"
    by (simp_all add: childRel_def example_heap_def)
  then have "(0, 3) \<in> (childRel example_heap)\<^sup>*"
    by (meson rtrancl.rtrancl_into_rtrancl rtrancl.rtrancl_refl)
  then show ?thesis by (simp add: descendants_def)
qed

theorem invalidate_reaches_all_descendants_witness:
  "ranked example_heap example_rank \<and> example_rank 0 < 3 \<and> 3 \<in> descendants example_heap 0
   \<and> (\<exists>h'. invalidate 3 example_heap 0 = Some h'
        \<and> invalidated (h' 3) \<and> childViews (h' 3) = []
        \<and> getValue (h' 3) [1, 3] = (Inl ErrInvalid, h' 3)
        \<and> getChildren (h' 3) [1] = (Inl ErrInvalid, h' 3)
        \<and> NewView (\<lambda>c. Inl ErrClosed) 4 5 [] False h' 3
             \<lparr>BatchOps = [], MapOps = [], ConsumeBytes = False\<rparr> = Some (Inl ErrInvalid, h')
        \<and> GetProof 5 [] False (h' 3) [1] = Some (Inl ErrInvalid, (h' 3)\<lparr>calculateNodesOnce := True\<rparr>)
        \<and> GetRangeProof example_iterator 5 [] False (h' 3) None None 1
             = Some (Inl ErrInvalid, (h' 3)\<lparr>calculateNodesOnce := True\<rparr>))"
proof -
  have rank: "example_rank 0 < 3" by (simp add: example_rank_def)
  have args: "\<not> ((None :: bytes option) \<noteq> None \<and> (None :: bytes option) \<noteq> None
                  \<and> bytes_Compare (slice_or_nil None) (slice_or_nil None) = 1) \<and> (0 :: int) < 1"
    by simp
  from invalidate_reaches_all_descendants
         [of example_heap example_rank 0 3 3 "[1, 3]" "\<lambda>c. Inl ErrClosed" 4 5 "[]" False
            "\<lparr>BatchOps = [], MapOps = [], ConsumeBytes = False\<rparr>" "[1]" None None 1 example_iterator,
          OF example_heap_ranked rank]
  obtain h' where h': "invalidate 3 example_heap 0 = Some h'"
    and rest: "3 \<in> descendants example_heap 0 \<longrightarrow>
          invalidated (h' 3) \<and> childViews (h' 3) = []
        \<and> getValue (h' 3) [1, 3] = (Inl ErrInvalid, h' 3)
        \<and> getChildren (h' 3) [1, 3] = (Inl ErrInvalid, h' 3)
        \<and> NewView (\<lambda>c. Inl ErrClosed) 4 5 [] False h' 3
             \<lparr>BatchOps = [], MapOps = [], ConsumeBytes = False\<rparr> = Some (Inl ErrInvalid, h')
        \<and> GetProof 5 [] False (h' 3) [1] = Some (Inl ErrInvalid, (h' 3)\<lparr>calculateNodesOnce := True\<rparr>)
        \<and> (\<not> ((None :: bytes option) \<noteq> None \<and> (None :: bytes option) \<noteq> None
                  \<and> bytes_Compare (slice_or_nil None) (slice_or_nil None) = 1) \<and> (0 :: int) < 1
            \<longrightarrow> GetRangeProof example_iterator 5 [] False (h' 3) None None 1
                  = Some (Inl (if calculateNodesOnce (h' 3)
                               then case snd (collectKeyValues
                                                (fst (example_iterator (h' 3) (slice_or_nil None)))
                                                (snd (example_iterator (h' 3) (slice_or_nil None)))
                                                None 1 []) of
                                      None \<Rightarrow> ErrInvalid
                                    | Some err \<Rightarrow> err
                               else ErrInvalid),
                          (h' 3)\<lparr>calculateNodesOnce := True\<rparr>))"
    by blast
  have "(if calculateNodesOnce (h' 3)
         then case snd (collectKeyValues
                          (fst (example_iterator (h' 3) (slice_or_nil None)))
                          (snd (example_iterator (h' 3) (slice_or_nil None)))
                          None 1 []) of
                None \<Rightarrow> ErrInvalid
              | Some err \<Rightarrow> err
         else ErrInvalid) = ErrInvalid"
    by (simp add: example_iterator_def)
  with rest example_heap_descendant args have
    "invalidated (h' 3) \<and> childViews (h' 3) = []
        \<and> getValue (h' 3) [1, 3] = (Inl ErrInvalid, h' 3)
        \<and> getChildren (h' 3) [1, 3] = (Inl ErrInvalid, h' 3)
        \<and> NewView (\<lambda>c. Inl ErrClosed) 4 5 [] False h' 3
             \<lparr>BatchOps = [], MapOps = [], ConsumeBytes = False\<rparr> = Some (Inl ErrInvalid, h')
        \<and> GetProof 5 [] False (h' 3) [1] = Some (Inl ErrInvalid, (h' 3)\<lparr>calculateNodesOnce := True\<rparr>)
        \<and> GetRangeProof example_iterator 5 [] False (h' 3) None None 1
                  = Some (Inl ErrInvalid, (h' 3)\<lparr>calculateNodesOnce := True\<rparr>)"
    by simp
  with h' example_heap_ranked rank example_heap_descendant show ?thesis
    by (auto simp: getChildren_invalid)
qed

text \<open>
  C2 as stated has every operation on an invalidated view return \<open>ErrInvalid\<close>.
  \<open>GetRangeProof\<close> looks at its arguments first: on the invalidated view 3, a
  \<open>maxLength\<close> of 0 is answered with \<open>ErrInvalidMaxLength\<close>. And once \<open>GetMerkleRoot\<close>
  has been refused on that view with \<open>ErrInvalid\<close>, a \<open>GetRangeProof\<close> whose iterator
  ends with \<open>ErrClosed\<close> is answered with \<open>ErrClosed\<close>.
\<close>

theorem invalidated_range_proof_counterexample:
  "(case invalidate 3 example_heap 0 of
      None \<Rightarrow> False
    | Some h' \<Rightarrow>
        invalidated (h' 3)
        \<and> map_option fst (GetRangeProof example_iterator 5 [] False (h' 3) None None 0)
            = Some (Inl (ErrInvalidMaxLength 0))
        \<and> (case GetMerkleRoot 5 [] False (h' 3) of
             None \<Rightarrow> False
           | Some (r, t) \<Rightarrow>
               r = Inl ErrInvalid \<and> invalidated t
               \<and> map_option fst (GetRangeProof example_closed_iterator 5 [] False t None None 1)
                   = Some (Inl ErrClosed)))
   \<and> ErrInvalidMaxLength 0 \<noteq> ErrInvalid
   \<and> ErrClosed \<noteq> ErrInvalid"
  by code_simp

end
